theory Spec2Isabelle
  imports Main
begin

section \<open>Values and the object store\<close>

text \<open>
  The class \<open>EnumSetting\<close> of \<open>src/lib/pages/enum-setting.js\<close> works on caller-supplied
  JavaScript values, stores references to them and writes to them in place. The values are
  the primitives and references into a store of objects. An object is either a plain object
  (its own enumerable properties, listed in the order \<open>for ... in\<close> and \<open>Object.keys\<close>
  enumerate them) or an array (its elements, and the named properties that a write such as
  \<open>arr.name = x\<close> adds to it). Functions, wrapper objects (\<open>new String\<close>), accessors,
  frozen objects, arrays with holes and prototypes with enumerable properties are outside
  the model. A number is an integer: the class tests the type of a number and makes a string
  of it, and does nothing else with it. An address is an index into the store; allocation
  appends.
\<close>

type_synonym addr = nat

datatype jsval = Undefined | Null | Bool bool | Num int | Str string | Ref addr

type_synonym props = "(string \<times> jsval) list"

datatype obj = Obj props | Arr "jsval list" props

type_synonym heap = "obj list"

text \<open>
  \<open>TypeError m\<close> is the error the class throws itself, with its message;
  \<open>EngineTypeError\<close> is the \<open>TypeError\<close> the runtime raises (a property read on
  \<open>undefined\<close> or \<open>null\<close>, a property write on a primitive in strict mode, iteration of
  a value that is not iterable, a call of something that is not a function).
  \<open>Unmodelled\<close> marks the two places where the model does not say what the code does:
  a reference to no object of the store, and an index loop over a plain object that has its
  own \<open>length\<close> property.
\<close>

datatype error = TypeError string | EngineTypeError | Unmodelled

fun own_props :: "obj \<Rightarrow> props" where
  "own_props (Obj ps) = ps"
| "own_props (Arr es ps) = ps"

fun with_props :: "props \<Rightarrow> obj \<Rightarrow> obj" where
  "with_props ps (Obj qs) = Obj ps"
| "with_props ps (Arr es qs) = Arr es ps"

definition cell :: "heap \<Rightarrow> addr \<Rightarrow> obj option" where
  "cell h a = (if a < length h then Some (h ! a) else None)"

definition alloc :: "heap \<Rightarrow> obj \<Rightarrow> jsval \<times> heap" where
  "alloc h ob = (Ref (length h), h @ [ob])"

text \<open>Reading an own property (\<open>undefined\<close> when absent) and writing one (in place when
  present, appended to the enumeration order when new).\<close>

fun prop_get :: "props \<Rightarrow> string \<Rightarrow> jsval" where
  "prop_get [] k = Undefined"
| "prop_get ((k', v) # ps) k = (if k' = k then v else prop_get ps k)"

fun prop_set :: "string \<Rightarrow> jsval \<Rightarrow> props \<Rightarrow> props" where
  "prop_set k v [] = [(k, v)]"
| "prop_set k v ((k', v') # ps) = (if k' = k then (k, v) # ps else (k', v') # prop_set k v ps)"

fun is_ref :: "jsval \<Rightarrow> bool" where
  "is_ref (Ref a) = True"
| "is_ref v = False"

text \<open>\<open>typeof\<close>, and the truthiness an \<open>if\<close> tests.\<close>

fun typeof :: "jsval \<Rightarrow> string" where
  "typeof Undefined = ''undefined''"
| "typeof Null = ''object''"
| "typeof (Bool b) = ''boolean''"
| "typeof (Num n) = ''number''"
| "typeof (Str s) = ''string''"
| "typeof (Ref a) = ''object''"

fun truthy :: "jsval \<Rightarrow> bool" where
  "truthy Undefined = False"
| "truthy Null = False"
| "truthy (Bool b) = b"
| "truthy (Num n) = (n \<noteq> 0)"
| "truthy (Str s) = (s \<noteq> [])"
| "truthy (Ref a) = True"

text \<open>\<open>Array.isArray\<close>.\<close>

definition isArray :: "heap \<Rightarrow> jsval \<Rightarrow> bool" where
  "isArray h v = (case v of
       Ref a \<Rightarrow> (case cell h a of Some (Arr es ps) \<Rightarrow> True | _ \<Rightarrow> False)
     | _ \<Rightarrow> False)"

text \<open>
  The property reads of the class are \<open>.name\<close>, \<open>.options\<close> and \<open>.id\<close>; no prototype of
  a primitive or of an array defines any of them, so a read on a boolean, number or string
  gives \<open>undefined\<close>. A write on a primitive throws: the file is in strict mode.
\<close>

definition get_prop :: "heap \<Rightarrow> jsval \<Rightarrow> string \<Rightarrow> error + jsval" where
  "get_prop h v k = (case v of
       Undefined \<Rightarrow> Inl EngineTypeError
     | Null \<Rightarrow> Inl EngineTypeError
     | Ref a \<Rightarrow> (case cell h a of
           None \<Rightarrow> Inl Unmodelled
         | Some ob \<Rightarrow> Inr (prop_get (own_props ob) k))
     | _ \<Rightarrow> Inr Undefined)"

definition set_prop :: "heap \<Rightarrow> jsval \<Rightarrow> string \<Rightarrow> jsval \<Rightarrow> error + heap" where
  "set_prop h v k x = (case v of
       Ref a \<Rightarrow> (case cell h a of
           None \<Rightarrow> Inl Unmodelled
         | Some ob \<Rightarrow> Inr (h[a := with_props (prop_set k x (own_props ob)) ob]))
     | _ \<Rightarrow> Inl EngineTypeError)"

text \<open>The values a \<open>for ... of\<close> loop visits: the elements of an array, the characters of a
  string; nothing else of the model is iterable.\<close>

definition iter_of :: "heap \<Rightarrow> jsval \<Rightarrow> error + jsval list" where
  "iter_of h v = (case v of
       Ref a \<Rightarrow> (case cell h a of
           None \<Rightarrow> Inl Unmodelled
         | Some (Arr es ps) \<Rightarrow> Inr es
         | Some (Obj ps) \<Rightarrow> Inl EngineTypeError)
     | Str s \<Rightarrow> Inr (map (\<lambda>c. Str [c]) s)
     | _ \<Rightarrow> Inl EngineTypeError)"

text \<open>The values a loop \<open>for (g = 0; g < v.length; g++) ... v[g]\<close> visits: \<open>v.length\<close>
  throws on \<open>undefined\<close> and \<open>null\<close>, is \<open>undefined\<close> on a boolean, a number and a plain
  object without that property (no iteration), and the length of a string or an array.\<close>

definition indexed :: "heap \<Rightarrow> jsval \<Rightarrow> error + jsval list" where
  "indexed h v = (case v of
       Undefined \<Rightarrow> Inl EngineTypeError
     | Null \<Rightarrow> Inl EngineTypeError
     | Str s \<Rightarrow> Inr (map (\<lambda>c. Str [c]) s)
     | Ref a \<Rightarrow> (case cell h a of
           None \<Rightarrow> Inl Unmodelled
         | Some (Arr es ps) \<Rightarrow> Inr es
         | Some (Obj ps) \<Rightarrow> (if ''length'' \<in> set (map fst ps) then Inl Unmodelled else Inr []))
     | _ \<Rightarrow> Inr [])"

text \<open>\<open>arr.push(x)\<close>.\<close>

definition js_push :: "heap \<Rightarrow> jsval \<Rightarrow> jsval \<Rightarrow> error + heap" where
  "js_push h v x = (case v of
       Undefined \<Rightarrow> Inl EngineTypeError
     | Null \<Rightarrow> Inl EngineTypeError
     | Ref a \<Rightarrow> (case cell h a of
           None \<Rightarrow> Inl Unmodelled
         | Some (Arr es ps) \<Rightarrow> Inr (h[a := Arr (es @ [x]) ps])
         | Some (Obj ps) \<Rightarrow> Inl EngineTypeError)
     | _ \<Rightarrow> Inl EngineTypeError)"

text \<open>The own properties a \<open>for ... in\<close> loop over a plain object visits.\<close>

definition iter_of_object :: "heap \<Rightarrow> jsval \<Rightarrow> props option" where
  "iter_of_object h v = (case v of
       Ref a \<Rightarrow> (case cell h a of Some (Obj ps) \<Rightarrow> Some ps | _ \<Rightarrow> None)
     | _ \<Rightarrow> None)"

text \<open>\<open>Object.keys(o).indexOf(k)\<close>; a key that is absent gives an index out of range.\<close>

fun index_of :: "string \<Rightarrow> string list \<Rightarrow> nat" where
  "index_of k [] = 0"
| "index_of k (x # xs) = (if x = k then 0 else Suc (index_of k xs))"

section \<open>The setting and its collaborators\<close>

text \<open>The fields of an \<open>EnumSetting\<close> instance. \<open>_id\<close> is the string given to the
  constructor.\<close>

record enum_setting =
  f_id :: string
  f_type :: jsval
  f_description :: jsval
  f_multiple :: jsval
  f_closeOnSelection :: jsval
  f_groupedOptions :: jsval
  f_options :: jsval
  f_submitOnChange :: jsval
  f_style :: jsval

text \<open>
  What the class takes from code that is not in \<open>enum-setting.js\<close>:
  \<open>headers\<close> is \<open>this._section._page.headers\<close> as an \<open>if\<close> tests it,
  \<open>i18nKey\<close> is \<open>this._section._page.i18nKey\<close>, \<open>translate\<close> is \<open>this.translate\<close>,
  \<open>super_toJson\<close> gives the properties of the fresh object \<open>super.toJson()\<close> returns, and
  \<open>engine_ToString\<close> is the string a template literal makes of a number or of an object
  (\<open>None\<close> when the conversion throws).
\<close>

record env =
  headers :: bool
  i18nKey :: "string \<Rightarrow> string"
  translate :: "jsval \<Rightarrow> jsval"
  super_toJson :: "enum_setting \<Rightarrow> props"
  engine_ToString :: "heap \<Rightarrow> jsval \<Rightarrow> string option"

definition EnumSetting :: "string \<Rightarrow> enum_setting" where
  "EnumSetting ident = \<lparr> f_id = ident, f_type = Str ''ENUM'', f_description = Str ''Tap to set'',
     f_multiple = Undefined, f_closeOnSelection = Undefined, f_groupedOptions = Undefined,
     f_options = Undefined, f_submitOnChange = Undefined, f_style = Undefined \<rparr>"

definition multiple :: "enum_setting \<Rightarrow> jsval \<Rightarrow> enum_setting" where
  "multiple s v = s\<lparr>f_multiple := v\<rparr>"

definition closeOnSelection :: "enum_setting \<Rightarrow> jsval \<Rightarrow> enum_setting" where
  "closeOnSelection s v = s\<lparr>f_closeOnSelection := v\<rparr>"

definition submitOnChange :: "enum_setting \<Rightarrow> jsval \<Rightarrow> enum_setting" where
  "submitOnChange s v = s\<lparr>f_submitOnChange := v\<rparr>"

definition style :: "enum_setting \<Rightarrow> jsval \<Rightarrow> enum_setting" where
  "style s v = s\<lparr>f_style := v\<rparr>"

text \<open>The string a template literal \<open>`${v}`\<close> makes of a value.\<close>

definition ToString :: "env \<Rightarrow> heap \<Rightarrow> jsval \<Rightarrow> error + string" where
  "ToString env h v = (case v of
       Undefined \<Rightarrow> Inr ''undefined''
     | Null \<Rightarrow> Inr ''null''
     | Bool b \<Rightarrow> Inr (if b then ''true'' else ''false'')
     | Str s \<Rightarrow> Inr s
     | _ \<Rightarrow> (case engine_ToString env h v of None \<Rightarrow> Inl EngineTypeError | Some t \<Rightarrow> Inr t))"

definition i18nOptionKey :: "env \<Rightarrow> enum_setting \<Rightarrow> heap \<Rightarrow> jsval \<Rightarrow> error + jsval" where
  "i18nOptionKey env s h property = (case ToString env h property of
       Inl e \<Rightarrow> Inl e
     | Inr p \<Rightarrow> Inr (Str (i18nKey env (''settings.'' @ f_id s @ ''.options.'' @ p @ ''.name''))))"

definition i18nOptionGroupKey :: "env \<Rightarrow> enum_setting \<Rightarrow> heap \<Rightarrow> jsval \<Rightarrow> error + jsval" where
  "i18nOptionGroupKey env s h property = (case ToString env h property of
       Inl e \<Rightarrow> Inl e
     | Inr p \<Rightarrow> Inr (Str (i18nKey env (''settings.'' @ f_id s @ ''.groups.'' @ p @ ''.name''))))"

definition i18nOptionGroupOptionKey ::
  "env \<Rightarrow> enum_setting \<Rightarrow> heap \<Rightarrow> jsval \<Rightarrow> jsval \<Rightarrow> error + jsval" where
  "i18nOptionGroupOptionKey env s h groupName property = (case ToString env h groupName of
       Inl e \<Rightarrow> Inl e
     | Inr g \<Rightarrow> (case ToString env h property of
           Inl e \<Rightarrow> Inl e
         | Inr p \<Rightarrow> Inr (Str (i18nKey env
             (''settings.'' @ f_id s @ ''.groups.'' @ g @ ''.options.'' @ p @ ''.name'')))))"

section \<open>\<open>groupedOptions\<close>\<close>

text \<open>
  A builder method returns the error it threw, if any, with the setting and the store as
  the call leaves them: a throw does not undo the writes made before it. The local array
  \<open>values\<close> is reachable from nowhere until the final assignment stores it, so it is kept
  as a list and allocated at that assignment.
\<close>

type_synonym outcome = "error option \<times> enum_setting \<times> heap"

text \<open>Lines 100 to 102: the options of one group of an array argument.\<close>

fun group_options_loop ::
  "env \<Rightarrow> enum_setting \<Rightarrow> jsval \<Rightarrow> jsval list \<Rightarrow> heap \<Rightarrow> error option \<times> heap" where
  "group_options_loop env s groupName [] h = (None, h)"
| "group_options_loop env s groupName (option # rest) h =
    (case get_prop h option ''name'' of
       Inl e \<Rightarrow> (Some e, h)
     | Inr n \<Rightarrow>
        (case (if headers env then i18nOptionGroupOptionKey env s h groupName n else Inr n) of
           Inl e \<Rightarrow> (Some e, h)
         | Inr n' \<Rightarrow>
            (case set_prop h option ''name'' n' of
               Inl e \<Rightarrow> (Some e, h)
             | Inr h' \<Rightarrow> group_options_loop env s groupName rest h')))"

text \<open>Lines 95 to 108: the groups of an array argument. \<open>groupName\<close> is read before the
  group's name is rewritten.\<close>

fun groups_array_loop ::
  "env \<Rightarrow> enum_setting \<Rightarrow> jsval list \<Rightarrow> jsval list \<Rightarrow> heap \<Rightarrow> (error + jsval list) \<times> heap" where
  "groups_array_loop env s [] values h = (Inr values, h)"
| "groups_array_loop env s (grp # rest) values h =
    (if is_ref grp then
       (case get_prop h grp ''name'' of
          Inl e \<Rightarrow> (Inl e, h)
        | Inr groupName \<Rightarrow>
           (case (if headers env then i18nOptionGroupKey env s h groupName else Inr groupName) of
              Inl e \<Rightarrow> (Inl e, h)
            | Inr n' \<Rightarrow>
               (case set_prop h grp ''name'' n' of
                  Inl e \<Rightarrow> (Inl e, h)
                | Inr h1 \<Rightarrow>
                   (case get_prop h1 grp ''options'' of
                      Inl e \<Rightarrow> (Inl e, h1)
                    | Inr ov \<Rightarrow>
                       (case iter_of h1 ov of
                          Inl e \<Rightarrow> (Inl e, h1)
                        | Inr os \<Rightarrow>
                           (case group_options_loop env s groupName os h1 of
                              (Some e, h2) \<Rightarrow> (Inl e, h2)
                            | (None, h2) \<Rightarrow>
                                groups_array_loop env s rest (values @ [grp]) h2))))))
     else (Inl (TypeError (typeof grp @ '' not valid for options group item'')), h))"

text \<open>Lines 123 to 129: the callback of \<open>propertyGroup.map\<close>, which reads \<open>group.name\<close>
  at each element, and the elements of the array that \<open>map\<close> returns.\<close>

fun map_names ::
  "env \<Rightarrow> enum_setting \<Rightarrow> jsval \<Rightarrow> jsval list \<Rightarrow> heap \<Rightarrow> (error + jsval list) \<times> heap" where
  "map_names env s grp [] h = (Inr [], h)"
| "map_names env s grp (name # rest) h =
    (case (if headers env
           then (case get_prop h grp ''name'' of
                   Inl e \<Rightarrow> Inl e
                 | Inr gn \<Rightarrow> i18nOptionGroupOptionKey env s h gn name)
           else Inr name) of
       Inl e \<Rightarrow> (Inl e, h)
     | Inr n' \<Rightarrow>
        (case alloc h (Obj [(''id'', name), (''name'', n')]) of
           (opt, h1) \<Rightarrow>
             (case map_names env s grp rest h1 of
                (Inl e, h2) \<Rightarrow> (Inl e, h2)
              | (Inr os, h2) \<Rightarrow> (Inr (opt # os), h2))))"

text \<open>Lines 131 to 143: the properties of a group given as a mapping. \<open>inner\<close> is
  \<open>groups[property]\<close>, which the loop does not write to.\<close>

fun inner_object_loop ::
  "env \<Rightarrow> enum_setting \<Rightarrow> jsval \<Rightarrow> jsval list \<Rightarrow> nat \<Rightarrow> props \<Rightarrow> props \<Rightarrow> heap \<Rightarrow>
     error option \<times> heap" where
  "inner_object_loop env s grp values index inner [] h = (None, h)"
| "inner_object_loop env s grp values index inner (kv # rest) h =
    (case alloc h (Obj [(''id'', Str (fst kv)), (''name'', prop_get inner (fst kv))]) of
       (opt, h1) \<Rightarrow>
        (case (if headers env
               then (case get_prop h1 grp ''name'' of
                       Inl e \<Rightarrow> Inl e
                     | Inr gn \<Rightarrow> i18nOptionGroupOptionKey env s h1 gn (prop_get inner (fst kv)))
               else Inr (prop_get inner (fst kv))) of
           Inl e \<Rightarrow> (Some e, h1)
         | Inr n' \<Rightarrow>
            (case set_prop h1 opt ''name'' n' of
               Inl e \<Rightarrow> (Some e, h1)
             | Inr h2 \<Rightarrow>
                (if index < length values then
                   (case get_prop h2 (values ! index) ''options'' of
                      Inl e \<Rightarrow> (Some e, h2)
                    | Inr ov \<Rightarrow>
                       (case js_push h2 ov opt of
                          Inl e \<Rightarrow> (Some e, h2)
                        | Inr h3 \<Rightarrow> inner_object_loop env s grp values index inner rest h3))
                 else (Some EngineTypeError, h2)))))"

text \<open>Lines 113 to 116: the group object made for a property of a mapping argument, and
  its name.\<close>

definition new_group :: "env \<Rightarrow> enum_setting \<Rightarrow> string \<Rightarrow> heap \<Rightarrow> (error + jsval) \<times> heap" where
  "new_group env s property h =
    (case alloc h (Arr [] []) of
       (oa, h1) \<Rightarrow>
        (case alloc h1 (Obj [(''name'', Str property), (''options'', oa)]) of
           (grp, h2) \<Rightarrow>
            (case (case get_prop h2 grp ''name'' of
                     Inl e \<Rightarrow> Inl e
                   | Inr gn \<Rightarrow> (if headers env then i18nOptionGroupKey env s h2 gn else Inr gn)) of
               Inl e \<Rightarrow> (Inl e, h2)
             | Inr n' \<Rightarrow>
                (case set_prop h2 grp ''name'' n' of
                   Inl e \<Rightarrow> (Inl e, h2)
                 | Inr h3 \<Rightarrow> (Inr grp, h3)))))"

text \<open>Lines 121 to 144: the options of that group, written to \<open>values[index]\<close>.\<close>

definition fill_group ::
  "env \<Rightarrow> enum_setting \<Rightarrow> jsval \<Rightarrow> jsval list \<Rightarrow> nat \<Rightarrow> jsval \<Rightarrow> heap \<Rightarrow> error option \<times> heap" where
  "fill_group env s grp values index propertyGroup h =
    (if isArray h propertyGroup then
       (case iter_of h propertyGroup of
          Inl e \<Rightarrow> (Some e, h)
        | Inr names \<Rightarrow>
           (case map_names env s grp names h of
              (Inl e, h1) \<Rightarrow> (Some e, h1)
            | (Inr os, h1) \<Rightarrow>
               (case alloc h1 (Arr os []) of
                  (arr, h2) \<Rightarrow>
                   (if index < length values then
                      (case set_prop h2 (values ! index) ''options'' arr of
                         Inl e \<Rightarrow> (Some e, h2)
                       | Inr h3 \<Rightarrow> (None, h3))
                    else (Some EngineTypeError, h2)))))
     else if is_ref propertyGroup then
       (case iter_of_object h propertyGroup of
          None \<Rightarrow> (Some Unmodelled, h)
        | Some inner \<Rightarrow> inner_object_loop env s grp values index inner inner h)
     else (None, h))"

text \<open>Lines 110 to 146: the properties of a mapping argument. \<open>groups\<close> holds the
  properties of the argument, which the loop does not write to.\<close>

fun groups_object_loop ::
  "env \<Rightarrow> enum_setting \<Rightarrow> props \<Rightarrow> props \<Rightarrow> jsval list \<Rightarrow> heap \<Rightarrow>
     (error + jsval list) \<times> heap" where
  "groups_object_loop env s groups [] values h = (Inr values, h)"
| "groups_object_loop env s groups (kv # rest) values h =
    (case new_group env s (fst kv) h of
       (Inl e, h1) \<Rightarrow> (Inl e, h1)
     | (Inr grp, h1) \<Rightarrow>
        (case fill_group env s grp (values @ [grp])
                (index_of (fst kv) (map fst groups)) (prop_get groups (fst kv)) h1 of
           (Some e, h2) \<Rightarrow> (Inl e, h2)
         | (None, h2) \<Rightarrow> groups_object_loop env s groups rest (values @ [grp]) h2))"

text \<open>Line 151, \<open>this._groupedOptions = values\<close>, reached only when no loop threw.\<close>

definition store_groupedOptions ::
  "enum_setting \<Rightarrow> (error + jsval list) \<times> heap \<Rightarrow> outcome" where
  "store_groupedOptions s r = (case r of
       (Inl e, h) \<Rightarrow> (Some e, s, h)
     | (Inr values, h) \<Rightarrow>
         (case alloc h (Arr values []) of (v, h') \<Rightarrow> (None, s\<lparr>f_groupedOptions := v\<rparr>, h')))"

definition groupedOptions :: "env \<Rightarrow> enum_setting \<Rightarrow> heap \<Rightarrow> jsval \<Rightarrow> outcome" where
  "groupedOptions env s h groups = (case groups of
       Ref a \<Rightarrow>
        (case cell h a of
           None \<Rightarrow> (Some Unmodelled, s, h)
         | Some (Arr es ps) \<Rightarrow> store_groupedOptions s (groups_array_loop env s es [] h)
         | Some (Obj ps) \<Rightarrow> store_groupedOptions s (groups_object_loop env s ps ps [] h))
     | _ \<Rightarrow> (Some (TypeError (typeof groups @ '' not valid for options group'')), s, h))"

section \<open>\<open>options\<close>\<close>

text \<open>Lines 175 to 184: the elements of an array argument.\<close>

fun options_array_loop ::
  "env \<Rightarrow> enum_setting \<Rightarrow> jsval list \<Rightarrow> jsval list \<Rightarrow> heap \<Rightarrow> (error + jsval list) \<times> heap" where
  "options_array_loop env s [] values h = (Inr values, h)"
| "options_array_loop env s (it0 # rest) values h =
    (case (case it0 of
             Str x \<Rightarrow> alloc h (Obj [(''id'', it0), (''name'', it0)])
           | _ \<Rightarrow> (it0, h)) of
       (it, h1) \<Rightarrow>
        (case get_prop h1 it ''name'' of
           Inl e \<Rightarrow> (Inl e, h1)
         | Inr n \<Rightarrow>
            (case (if headers env then i18nOptionKey env s h1 n else Inr n) of
               Inl e \<Rightarrow> (Inl e, h1)
             | Inr n' \<Rightarrow>
                (case set_prop h1 it ''name'' n' of
                   Inl e \<Rightarrow> (Inl e, h1)
                 | Inr h2 \<Rightarrow> options_array_loop env s rest (values @ [it]) h2))))"

text \<open>Lines 186 to 194: the properties of a mapping argument, which the loop does not
  write to.\<close>

fun options_object_loop ::
  "env \<Rightarrow> enum_setting \<Rightarrow> props \<Rightarrow> props \<Rightarrow> jsval list \<Rightarrow> heap \<Rightarrow>
     (error + jsval list) \<times> heap" where
  "options_object_loop env s opts [] values h = (Inr values, h)"
| "options_object_loop env s opts (kv # rest) values h =
    (case alloc h (Obj [(''id'', Str (fst kv)), (''name'', prop_get opts (fst kv))]) of
       (opt, h1) \<Rightarrow>
        (case (if headers env then i18nOptionKey env s h1 (prop_get opts (fst kv))
               else Inr (prop_get opts (fst kv))) of
           Inl e \<Rightarrow> (Inl e, h1)
         | Inr n' \<Rightarrow>
            (case set_prop h1 opt ''name'' n' of
               Inl e \<Rightarrow> (Inl e, h1)
             | Inr h2 \<Rightarrow> options_object_loop env s opts rest (values @ [opt]) h2)))"

definition store_options :: "enum_setting \<Rightarrow> (error + jsval list) \<times> heap \<Rightarrow> outcome" where
  "store_options s r = (case r of
       (Inl e, h) \<Rightarrow> (Some e, s, h)
     | (Inr values, h) \<Rightarrow>
         (case alloc h (Arr values []) of (v, h') \<Rightarrow> (None, s\<lparr>f_options := v\<rparr>, h')))"

definition options :: "env \<Rightarrow> enum_setting \<Rightarrow> heap \<Rightarrow> jsval \<Rightarrow> outcome" where
  "options env s h opts = (case opts of
       Ref a \<Rightarrow>
        (case cell h a of
           None \<Rightarrow> (Some Unmodelled, s, h)
         | Some (Arr es ps) \<Rightarrow> store_options s (options_array_loop env s es [] h)
         | Some (Obj ps) \<Rightarrow> store_options s (options_object_loop env s ps ps [] h))
     | _ \<Rightarrow> (Some (TypeError (typeof opts @ '' not valid for options'')), s, h))"

section \<open>\<open>toJson\<close>\<close>

text \<open>
  Lines 238 to 253 assign the stored array to the result and then write through the
  result: \<open>result.options[i]\<close> is \<open>this._options[i]\<close>. A loop visits the elements the
  array has when it starts; the writes are to \<open>name\<close> properties and change no element.
\<close>

fun translate_names :: "env \<Rightarrow> jsval list \<Rightarrow> heap \<Rightarrow> error option \<times> heap" where
  "translate_names env [] h = (None, h)"
| "translate_names env (it # rest) h =
    (case get_prop h it ''name'' of
       Inl e \<Rightarrow> (Some e, h)
     | Inr n \<Rightarrow>
        (case set_prop h it ''name'' (translate env n) of
           Inl e \<Rightarrow> (Some e, h)
         | Inr h' \<Rightarrow> translate_names env rest h'))"

fun translate_groups :: "env \<Rightarrow> jsval list \<Rightarrow> heap \<Rightarrow> error option \<times> heap" where
  "translate_groups env [] h = (None, h)"
| "translate_groups env (grp # rest) h =
    (case get_prop h grp ''name'' of
       Inl e \<Rightarrow> (Some e, h)
     | Inr n \<Rightarrow>
        (case set_prop h grp ''name'' (translate env n) of
           Inl e \<Rightarrow> (Some e, h)
         | Inr h1 \<Rightarrow>
            (case get_prop h1 grp ''options'' of
               Inl e \<Rightarrow> (Some e, h1)
             | Inr ov \<Rightarrow>
                (case indexed h1 ov of
                   Inl e \<Rightarrow> (Some e, h1)
                 | Inr os \<Rightarrow>
                    (case translate_names env os h1 of
                       (Some e, h2) \<Rightarrow> (Some e, h2)
                     | (None, h2) \<Rightarrow> translate_groups env rest h2)))))"

text \<open>Lines 236 to 246 and lines 248 to 254, without the assignment to \<open>result\<close>.\<close>

definition toJson_groupedOptions :: "env \<Rightarrow> enum_setting \<Rightarrow> heap \<Rightarrow> error option \<times> heap" where
  "toJson_groupedOptions env s h =
    (if isArray h (f_groupedOptions s)
     then (case iter_of h (f_groupedOptions s) of
             Inl e \<Rightarrow> (Some e, h)
           | Inr gs \<Rightarrow> translate_groups env gs h)
     else (None, h))"

definition toJson_options :: "env \<Rightarrow> enum_setting \<Rightarrow> heap \<Rightarrow> error option \<times> heap" where
  "toJson_options env s h =
    (if isArray h (f_options s)
     then (case iter_of h (f_options s) of
             Inl e \<Rightarrow> (Some e, h)
           | Inr os \<Rightarrow> translate_names env os h)
     else (None, h))"

text \<open>The properties of \<open>result\<close> at the \<open>return\<close>: those of \<open>super.toJson()\<close>, then the
  assignments of lines 229, 233, 237, 249 and 257, each under its test.\<close>

definition result_props :: "env \<Rightarrow> enum_setting \<Rightarrow> bool \<Rightarrow> bool \<Rightarrow> props" where
  "result_props env s grouped flat =
    (let r0 = super_toJson env s;
         r1 = (if truthy (f_multiple s) then prop_set ''multiple'' (f_multiple s) r0 else r0);
         r2 = (if truthy (f_closeOnSelection s)
               then prop_set ''closeOnSelection'' (f_closeOnSelection s) r1 else r1);
         r3 = (if grouped then prop_set ''groupedOptions'' (f_groupedOptions s) r2 else r2);
         r4 = (if flat then prop_set ''options'' (f_options s) r3 else r3)
     in if truthy (f_style s) then prop_set ''style'' (f_style s) r4 else r4)"

definition toJson :: "env \<Rightarrow> enum_setting \<Rightarrow> heap \<Rightarrow> (error + jsval) \<times> heap" where
  "toJson env s h =
    (case toJson_groupedOptions env s h of
       (Some e, h1) \<Rightarrow> (Inl e, h1)
     | (None, h1) \<Rightarrow>
        (case toJson_options env s h1 of
           (Some e, h2) \<Rightarrow> (Inl e, h2)
         | (None, h2) \<Rightarrow>
            (case alloc h2 (Obj (result_props env s (isArray h (f_groupedOptions s))
                                   (isArray h1 (f_options s)))) of
               (doc, h3) \<Rightarrow> (Inr doc, h3))))"

section \<open>Reading stored structures\<close>

text \<open>
  What a reader of the store finds behind a value: the \<open>id\<close> and \<open>name\<close> of an option object,
  the options of an array of them, the name and options of a group object, the groups of an
  array of them. \<open>None\<close> when the value is not of that shape.
\<close>

definition read_option :: "heap \<Rightarrow> jsval \<Rightarrow> (jsval \<times> jsval) option" where
  "read_option h v = (case v of
       Ref a \<Rightarrow> (case cell h a of
           None \<Rightarrow> None
         | Some ob \<Rightarrow> Some (prop_get (own_props ob) ''id'', prop_get (own_props ob) ''name''))
     | _ \<Rightarrow> None)"

definition read_array :: "heap \<Rightarrow> jsval \<Rightarrow> jsval list option" where
  "read_array h v = (case v of
       Ref a \<Rightarrow> (case cell h a of Some (Arr es ps) \<Rightarrow> Some es | _ \<Rightarrow> None)
     | _ \<Rightarrow> None)"

definition read_options :: "heap \<Rightarrow> jsval \<Rightarrow> (jsval \<times> jsval) list option" where
  "read_options h v = (case read_array h v of
       None \<Rightarrow> None
     | Some es \<Rightarrow> those (map (read_option h) es))"

definition read_group :: "heap \<Rightarrow> jsval \<Rightarrow> (jsval \<times> (jsval \<times> jsval) list) option" where
  "read_group h v = (case v of
       Ref a \<Rightarrow> (case cell h a of
           None \<Rightarrow> None
         | Some ob \<Rightarrow> (case read_options h (prop_get (own_props ob) ''options'') of
               None \<Rightarrow> None
             | Some os \<Rightarrow> Some (prop_get (own_props ob) ''name'', os)))
     | _ \<Rightarrow> None)"

definition read_groups :: "heap \<Rightarrow> jsval \<Rightarrow> (jsval \<times> (jsval \<times> jsval) list) list option" where
  "read_groups h v = (case read_array h v of
       None \<Rightarrow> None
     | Some gs \<Rightarrow> those (map (read_group h) gs))"

section \<open>Relations between stores\<close>

text \<open>
  \<open>names_only h h'\<close>: every object of \<open>h\<close> is in \<open>h'\<close> at the same address, of the same
  kind, with the same elements and, the property \<open>name\<close> left out, the same properties in
  the same order. \<open>h'\<close> may hold more objects.
\<close>

definition sans_name :: "props \<Rightarrow> props" where
  "sans_name ps = filter (\<lambda>kv. fst kv \<noteq> ''name'') ps"

fun same_but_name :: "obj \<Rightarrow> obj \<Rightarrow> bool" where
  "same_but_name (Obj p) (Obj q) = (sans_name p = sans_name q)"
| "same_but_name (Arr es p) (Arr fs q) = (es = fs \<and> sans_name p = sans_name q)"
| "same_but_name (Obj p) (Arr fs q) = False"
| "same_but_name (Arr es p) (Obj q) = False"

definition names_only :: "heap \<Rightarrow> heap \<Rightarrow> bool" where
  "names_only h h' = (length h \<le> length h' \<and> list_all2 same_but_name h (take (length h) h'))"

text \<open>
  An object is settled when it has its own \<open>name\<close> and \<open>translate\<close> returns that name
  unchanged. \<open>settles env h h'\<close>: \<open>h'\<close> has the objects of \<open>h\<close> and no other, changed in their
  names only, and the settled ones not at all.
\<close>

fun has_key :: "string \<Rightarrow> props \<Rightarrow> bool" where
  "has_key k [] = False"
| "has_key k (kv # ps) = (fst kv = k \<or> has_key k ps)"

definition name_settled :: "env \<Rightarrow> obj \<Rightarrow> bool" where
  "name_settled env ob = (has_key ''name'' (own_props ob) \<and>
     translate env (prop_get (own_props ob) ''name'') = prop_get (own_props ob) ''name'')"

definition settles :: "env \<Rightarrow> heap \<Rightarrow> heap \<Rightarrow> bool" where
  "settles env h h' = (names_only h h' \<and> length h' = length h \<and>
     (\<forall>a < length h. name_settled env (h ! a) \<longrightarrow> h' ! a = h ! a))"

definition settled_val :: "env \<Rightarrow> heap \<Rightarrow> jsval \<Rightarrow> bool" where
  "settled_val env h v = (\<exists>a. v = Ref a \<and> a < length h \<and> name_settled env (h ! a))"

definition settled_group :: "env \<Rightarrow> heap \<Rightarrow> jsval \<Rightarrow> bool" where
  "settled_group env h g = (settled_val env h g \<and>
     (\<exists>ov os. get_prop h g ''options'' = Inr ov \<and> indexed h ov = Inr os \<and>
        (\<forall>x \<in> set os. settled_val env h x)))"

text \<open>The errors of the runtime, and the values the loops over an array argument write to a
  \<open>name\<close>: a localization key when localization is on, the name the object has when it is
  off.\<close>

definition engine_error :: "error \<Rightarrow> bool" where
  "engine_error e = (e = EngineTypeError \<or> e = Unmodelled)"

definition written :: "env \<Rightarrow> heap \<Rightarrow> jsval \<Rightarrow> jsval \<Rightarrow> bool" where
  "written env h v x =
     (if headers env then (\<exists>p. x = Str (i18nKey env p)) else get_prop h v ''name'' = Inr x)"

text \<open>\<open>key_named env h v\<close>: the name of the object \<open>v\<close> is a key that \<open>i18nKey\<close> made.\<close>

definition key_named :: "env \<Rightarrow> heap \<Rightarrow> jsval \<Rightarrow> bool" where
  "key_named env h v = (\<exists>p. get_prop h v ''name'' = Inr (Str (i18nKey env p)))"

text \<open>
  \<open>same_reads h h'\<close>: every object of \<open>h\<close> has in \<open>h'\<close> the value it had for every property.
  \<open>string_or_object h e\<close>: \<open>e\<close> is a string or an object of the store.
  \<open>as_given h e\<close>: for a string, that string as \<open>id\<close> and as \<open>name\<close>; for an object, the
  \<open>id\<close> and the \<open>name\<close> it has in \<open>h\<close>, \<open>undefined\<close> when it has none.
\<close>

definition same_reads :: "heap \<Rightarrow> heap \<Rightarrow> bool" where
  "same_reads h h' = (length h \<le> length h' \<and>
     (\<forall>a < length h. \<forall>k. prop_get (own_props (h' ! a)) k = prop_get (own_props (h ! a)) k))"

fun string_or_object :: "heap \<Rightarrow> jsval \<Rightarrow> bool" where
  "string_or_object h (Str x) = True"
| "string_or_object h (Ref a) = (a < length h)"
| "string_or_object h v = False"

fun as_given :: "heap \<Rightarrow> jsval \<Rightarrow> jsval \<times> jsval" where
  "as_given h (Ref a) = (prop_get (own_props (h ! a)) ''id'', prop_get (own_props (h ! a)) ''name'')"
| "as_given h v = (v, v)"

text \<open>
  For a mapping argument of \<open>groupedOptions\<close> whose values are arrays of strings or
  primitives: \<open>entry_strings h v\<close> gives the strings of such a value (none for a primitive),
  \<open>group_text\<close> the name the group of a key gets, \<open>option_text\<close> the name an option gets
  in a group of that name, and \<open>expected_group\<close> the name of the group of an entry with the
  \<open>id\<close> and \<open>name\<close> of its options.
\<close>

definition group_text :: "env \<Rightarrow> enum_setting \<Rightarrow> string \<Rightarrow> string" where
  "group_text env s k =
     (if headers env then i18nKey env (''settings.'' @ f_id s @ ''.groups.'' @ k @ ''.name'')
      else k)"

definition option_text :: "env \<Rightarrow> enum_setting \<Rightarrow> string \<Rightarrow> string \<Rightarrow> string" where
  "option_text env s g x =
     (if headers env
      then i18nKey env (''settings.'' @ f_id s @ ''.groups.'' @ g @ ''.options.'' @ x @ ''.name'')
      else x)"

fun str_of :: "jsval \<Rightarrow> string option" where
  "str_of (Str x) = Some x"
| "str_of v = None"

definition entry_strings :: "heap \<Rightarrow> jsval \<Rightarrow> string list option" where
  "entry_strings h v = (case v of
       Ref b \<Rightarrow> (case cell h b of Some (Arr es qs) \<Rightarrow> those (map str_of es) | _ \<Rightarrow> None)
     | _ \<Rightarrow> Some [])"

definition entry_list :: "heap \<Rightarrow> jsval \<Rightarrow> string list" where
  "entry_list h v = (case entry_strings h v of Some xs \<Rightarrow> xs | None \<Rightarrow> [])"

definition expected_group ::
  "env \<Rightarrow> enum_setting \<Rightarrow> heap \<Rightarrow> string \<times> jsval \<Rightarrow> jsval \<times> (jsval \<times> jsval) list" where
  "expected_group env s h kv =
     (Str (group_text env s (fst kv)),
      map (\<lambda>x. (Str x, Str (option_text env s (group_text env s (fst kv)) x)))
        (entry_list h (snd kv)))"

section \<open>Two pages\<close>

text \<open>
  A page without localization, whose \<open>translate\<close> returns its argument, and a page with
  localization, whose keys are the paths behind \<open>k:\<close> and whose \<open>translate\<close> marks a
  string with \<open>!\<close>. The base class contributes \<open>id\<close> and \<open>type\<close> to the document.
\<close>

definition page_plain :: env where
  "page_plain = \<lparr> headers = False, i18nKey = (\<lambda>p. p), translate = (\<lambda>v. v),
     super_toJson = (\<lambda>s. [(''id'', Str (f_id s)), (''type'', f_type s)]),
     engine_ToString = (\<lambda>h v. None) \<rparr>"

definition page_i18n :: env where
  "page_i18n = \<lparr> headers = True, i18nKey = (\<lambda>p. ''k:'' @ p),
     translate = (\<lambda>v. case v of Str x \<Rightarrow> Str (x @ ''!'') | _ \<Rightarrow> v),
     super_toJson = (\<lambda>s. [(''id'', Str (f_id s)), (''type'', f_type s)]),
     engine_ToString = (\<lambda>h v. None) \<rparr>"

text \<open>A page with localization whose \<open>translate\<close> looks a key up in a table of one entry
  and returns every other value as it is.\<close>

definition page_table :: env where
  "page_table = \<lparr> headers = True, i18nKey = (\<lambda>p. p),
     translate = (\<lambda>v. if v = Str ''settings.e.options.a.name'' then Str ''Apple'' else v),
     super_toJson = (\<lambda>s. [(''id'', Str (f_id s)), (''type'', f_type s)]),
     engine_ToString = (\<lambda>h v. None) \<rparr>"

section \<open>The store relation of name writes\<close>

lemma sans_name_prop_set: "sans_name (prop_set ''name'' v ps) = sans_name ps"
  by (induction ps) (auto simp: sans_name_def)

lemma same_but_name_refl: "same_but_name ob ob"
  by (cases ob) auto

lemma same_but_name_trans:
  "same_but_name a b \<Longrightarrow> same_but_name b c \<Longrightarrow> same_but_name a c"
  by (cases a; cases b; cases c) auto

lemma same_but_name_with_props:
  "same_but_name ob (with_props (prop_set ''name'' v (own_props ob)) ob)"
  by (cases ob) (auto simp: sans_name_prop_set)

lemma names_only_iff:
  "names_only h h' \<longleftrightarrow>
     length h \<le> length h' \<and> (\<forall>a < length h. same_but_name (h ! a) (h' ! a))"
  by (auto simp: names_only_def list_all2_conv_all_nth)

lemma names_only_refl: "names_only h h"
  by (simp add: names_only_iff same_but_name_refl)

lemma names_only_trans: "names_only h h' \<Longrightarrow> names_only h' h'' \<Longrightarrow> names_only h h''"
  unfolding names_only_iff
  by (meson le_trans less_le_trans same_but_name_trans)

lemma names_only_alloc: "alloc h ob = (v, h') \<Longrightarrow> names_only h h'"
  by (auto simp: names_only_iff alloc_def nth_append same_but_name_refl)

lemma names_only_set_name: "set_prop h v ''name'' x = Inr h' \<Longrightarrow> names_only h h'"
  by (auto simp: names_only_iff set_prop_def cell_def nth_list_update same_but_name_refl
      same_but_name_with_props split: jsval.splits if_splits)

section \<open>What the loops of the builders do to the store\<close>

lemma get_prop_error: "get_prop h v k = Inl e \<Longrightarrow> engine_error e"
  by (auto simp: get_prop_def engine_error_def split: jsval.splits option.splits)

lemma set_prop_error: "set_prop h v k x = Inl e \<Longrightarrow> engine_error e"
  by (auto simp: set_prop_def engine_error_def split: jsval.splits option.splits)

lemma iter_of_error: "iter_of h v = Inl e \<Longrightarrow> engine_error e"
  by (auto simp: iter_of_def engine_error_def split: jsval.splits option.splits obj.splits)

lemma js_push_error: "js_push h v x = Inl e \<Longrightarrow> engine_error e"
  by (auto simp: js_push_def engine_error_def split: jsval.splits option.splits obj.splits)

lemma ToString_error: "ToString env h v = Inl e \<Longrightarrow> engine_error e"
  by (auto simp: ToString_def engine_error_def split: jsval.splits option.splits)

lemma i18nOptionKey_error: "i18nOptionKey env s h v = Inl e \<Longrightarrow> engine_error e"
  by (auto simp: i18nOptionKey_def split: sum.splits dest: ToString_error)

lemma i18nOptionGroupKey_error: "i18nOptionGroupKey env s h v = Inl e \<Longrightarrow> engine_error e"
  by (auto simp: i18nOptionGroupKey_def split: sum.splits dest: ToString_error)

lemma i18nOptionGroupOptionKey_error:
  "i18nOptionGroupOptionKey env s h g v = Inl e \<Longrightarrow> engine_error e"
  by (auto simp: i18nOptionGroupOptionKey_def split: sum.splits dest: ToString_error)

lemmas prim_errors = get_prop_error set_prop_error iter_of_error js_push_error
  i18nOptionKey_error i18nOptionGroupKey_error i18nOptionGroupOptionKey_error

lemma isArray_append: "isArray h v \<Longrightarrow> isArray (h @ [ob]) v"
  by (auto simp: isArray_def cell_def nth_append split: jsval.splits if_splits)

lemma isArray_alloc: "alloc h ob = (x, h') \<Longrightarrow> isArray h v \<Longrightarrow> isArray h' v"
  by (auto simp: alloc_def isArray_append)

lemma isArray_set_prop: "set_prop h x k y = Inr h' \<Longrightarrow> isArray h v \<Longrightarrow> isArray h' v"
proof -
  assume s: "set_prop h x k y = Inr h'" and a: "isArray h v"
  from s obtain b where x: "x = Ref b" "b < length h"
    and h': "h' = h[b := with_props (prop_set k y (own_props (h ! b))) (h ! b)]"
    by (auto simp: set_prop_def cell_def split: jsval.splits if_splits)
  from a obtain c es ps where v: "v = Ref c" "c < length h" "h ! c = Arr es ps"
    by (auto simp: isArray_def cell_def split: jsval.splits if_splits obj.splits)
  show ?thesis using x h' v by (cases "c = b") (auto simp: isArray_def cell_def)
qed

lemma isArray_js_push: "js_push h x y = Inr h' \<Longrightarrow> isArray h v \<Longrightarrow> isArray h' v"
proof -
  assume s: "js_push h x y = Inr h'" and a: "isArray h v"
  from s obtain b es ps where x: "x = Ref b" "b < length h" "h ! b = Arr es ps"
    and h': "h' = h[b := Arr (es @ [y]) ps]"
    by (auto simp: js_push_def cell_def split: jsval.splits if_splits obj.splits)
  from a obtain c es' ps' where v: "v = Ref c" "c < length h" "h ! c = Arr es' ps'"
    by (auto simp: isArray_def cell_def split: jsval.splits if_splits obj.splits)
  show ?thesis using x h' v by (cases "c = b") (auto simp: isArray_def cell_def)
qed




lemma group_options_loop_error:
  "group_options_loop env s gn os h = (Some e, h') \<Longrightarrow> engine_error e"
  by (induction os arbitrary: h)
     (auto split: sum.splits prod.splits if_splits dest: prim_errors)






lemma options_object_loop_rel:
  assumes alloc0: "\<forall>h hs. R h0 h \<longrightarrow> R h0 (h @ hs)"
    and set0: "\<forall>h v k x h'. set_prop h v k x = Inr h' \<longrightarrow> R h0 h \<longrightarrow> R h0 h'"
  shows "options_object_loop env s opts ps vals h = (r, h') \<Longrightarrow> R h0 h \<Longrightarrow> R h0 h'"
proof (induction ps arbitrary: vals h)
  case Nil
  then show ?case by auto
next
  case (Cons kv rest)
  from Cons.prems show ?case
    by (auto split: sum.splits prod.splits if_splits simp: alloc_def
        intro: Cons.IH alloc0 [rule_format] set0 [rule_format])
qed

lemma map_names_rel:
  assumes alloc0: "\<forall>h hs. R h0 h \<longrightarrow> R h0 (h @ hs)"
  shows "map_names env s grp ns h = (r, h') \<Longrightarrow> R h0 h \<Longrightarrow> R h0 h'"
proof (induction ns arbitrary: h r h')
  case Nil
  then show ?case by auto
next
  case (Cons x rest)
  from Cons.prems show ?case
    by (auto split: sum.splits prod.splits if_splits simp: alloc_def
        intro: Cons.IH alloc0 [rule_format])
qed

lemma inner_object_loop_rel:
  assumes alloc0: "\<forall>h hs. R h0 h \<longrightarrow> R h0 (h @ hs)"
    and set0: "\<forall>h v k x h'. set_prop h v k x = Inr h' \<longrightarrow> R h0 h \<longrightarrow> R h0 h'"
    and push0: "\<forall>h v x h'. js_push h v x = Inr h' \<longrightarrow> R h0 h \<longrightarrow> R h0 h'"
  shows "inner_object_loop env s grp vals ix inner ps h = (r, h') \<Longrightarrow> R h0 h \<Longrightarrow> R h0 h'"
proof (induction ps arbitrary: h)
  case Nil
  then show ?case by auto
next
  case (Cons x rest)
  from Cons.prems show ?case
    by (auto split: sum.splits prod.splits if_splits simp: alloc_def;
        blast intro: Cons.IH alloc0 [rule_format] set0 [rule_format] push0 [rule_format])
qed

lemma new_group_rel:
  assumes alloc0: "\<forall>h hs. R h0 h \<longrightarrow> R h0 (h @ hs)"
    and set0: "\<forall>h v k x h'. set_prop h v k x = Inr h' \<longrightarrow> R h0 h \<longrightarrow> R h0 h'"
  shows "new_group env s k h = (r, h') \<Longrightarrow> R h0 h \<Longrightarrow> R h0 h'"
  by (auto simp: new_group_def alloc_def split: sum.splits if_splits
        intro: alloc0 [rule_format] set0 [rule_format])

lemma fill_group_rel:
  assumes alloc0: "\<forall>h hs. R h0 h \<longrightarrow> R h0 (h @ hs)"
    and set0: "\<forall>h v k x h'. set_prop h v k x = Inr h' \<longrightarrow> R h0 h \<longrightarrow> R h0 h'"
    and push0: "\<forall>h v x h'. js_push h v x = Inr h' \<longrightarrow> R h0 h \<longrightarrow> R h0 h'"
  shows "fill_group env s grp vals ix pg h = (r, h') \<Longrightarrow> R h0 h \<Longrightarrow> R h0 h'"
proof -
  note mn = map_names_rel [where R = R and ?h0.0 = h0, OF alloc0]
  note il = inner_object_loop_rel [where R = R and ?h0.0 = h0, OF alloc0 set0 push0]
  show "fill_group env s grp vals ix pg h = (r, h') \<Longrightarrow> R h0 h \<Longrightarrow> R h0 h'"
    by (auto simp: fill_group_def alloc_def
        split: sum.splits prod.splits if_splits option.splits
        intro: alloc0 [rule_format] set0 [rule_format] mn il)
qed

lemma groups_object_loop_rel:
  assumes alloc0: "\<forall>h hs. R h0 h \<longrightarrow> R h0 (h @ hs)"
    and set0: "\<forall>h v k x h'. set_prop h v k x = Inr h' \<longrightarrow> R h0 h \<longrightarrow> R h0 h'"
    and push0: "\<forall>h v x h'. js_push h v x = Inr h' \<longrightarrow> R h0 h \<longrightarrow> R h0 h'"
  shows "groups_object_loop env s groups ps vals h = (r, h') \<Longrightarrow> R h0 h \<Longrightarrow> R h0 h'"
proof (induction ps arbitrary: vals h)
  case Nil
  then show ?case by auto
next
  case (Cons kv rest)
  note ng = new_group_rel [where R = R and ?h0.0 = h0, OF alloc0 set0]
  note fg = fill_group_rel [where R = R and ?h0.0 = h0, OF alloc0 set0 push0]
  from Cons.prems(1) consider
      (new) rn where "new_group env s (fst kv) h = (rn, h')"
    | (fill) grp h1 rf ix pg where "new_group env s (fst kv) h = (Inr grp, h1)"
        "fill_group env s grp (vals @ [grp]) ix pg h1 = (rf, h')"
    | (rec) grp h1 h2 ix pg where "new_group env s (fst kv) h = (Inr grp, h1)"
        "fill_group env s grp (vals @ [grp]) ix pg h1 = (None, h2)"
        "groups_object_loop env s groups rest (vals @ [grp]) h2 = (r, h')"
    by (auto split: sum.splits prod.splits option.splits)
  then show ?case
  proof cases
    case new
    from ng [OF new Cons.prems(2)] show ?thesis .
  next
    case fill
    from ng [OF fill(1) Cons.prems(2)] have "R h0 h1" .
    with fg [OF fill(2)] show ?thesis .
  next
    case rec
    from ng [OF rec(1) Cons.prems(2)] have "R h0 h1" .
    with fg [OF rec(2)] have "R h0 h2" .
    with Cons.IH [OF rec(3)] show ?thesis .
  qed
qed

lemma i18nOptionKey_form:
  "i18nOptionKey env s h v = Inr x \<Longrightarrow> \<exists>p. x = Str (i18nKey env p)"
  by (auto simp: i18nOptionKey_def split: sum.splits)

lemma i18nOptionGroupKey_form:
  "i18nOptionGroupKey env s h v = Inr x \<Longrightarrow> \<exists>p. x = Str (i18nKey env p)"
  by (auto simp: i18nOptionGroupKey_def split: sum.splits)

lemma i18nOptionGroupOptionKey_form:
  "i18nOptionGroupOptionKey env s h g v = Inr x \<Longrightarrow> \<exists>p. x = Str (i18nKey env p)"
  by (auto simp: i18nOptionGroupOptionKey_def split: sum.splits)

lemma group_options_loop_writes:
  assumes set0: "\<forall>h v x h'. set_prop h v ''name'' x = Inr h' \<longrightarrow> written env h v x \<longrightarrow>
      R h0 h \<longrightarrow> R h0 h'"
  shows "group_options_loop env s gn os h = (r, h') \<Longrightarrow> R h0 h \<Longrightarrow> R h0 h'"
proof (induction os arbitrary: h)
  case Nil
  then show ?case by auto
next
  case (Cons x rest)
  from Cons.prems(1) consider
      (stop) "h' = h"
    | (rec) n n' h1 where "get_prop h x ''name'' = Inr n"
        "(if headers env then i18nOptionGroupOptionKey env s h gn n else Inr n) = Inr n'"
        "set_prop h x ''name'' n' = Inr h1"
        "group_options_loop env s gn rest h1 = (r, h')"
    by (auto split: sum.splits)
  then show ?case
  proof cases
    case stop
    with Cons.prems(2) show ?thesis by simp
  next
    case rec
    have "written env h x n'"
      using rec(1,2) i18nOptionGroupOptionKey_form
      by (cases "headers env") (auto simp: written_def)
    with set0 rec(3) Cons.prems(2) have "R h0 h1" by blast
    with Cons.IH [OF rec(4)] show ?thesis .
  qed
qed

lemma groups_array_loop_writes:
  assumes set0: "\<forall>h v x h'. set_prop h v ''name'' x = Inr h' \<longrightarrow> written env h v x \<longrightarrow>
      R h0 h \<longrightarrow> R h0 h'"
  shows "groups_array_loop env s gs vals h = (r, h') \<Longrightarrow> R h0 h \<Longrightarrow> R h0 h'"
proof (induction gs arbitrary: vals h)
  case Nil
  then show ?case by auto
next
  case (Cons g rest)
  note gl = group_options_loop_writes [where R = R and ?h0.0 = h0, OF set0]
  from Cons.prems(1) consider
      (stop) "h' = h"
    | (named) gn n where "get_prop h g ''name'' = Inr gn"
        "(if headers env then i18nOptionGroupKey env s h gn else Inr gn) = Inr n"
        "set_prop h g ''name'' n = Inr h'"
    | (inner) gn n "h1" ro os where "get_prop h g ''name'' = Inr gn"
        "(if headers env then i18nOptionGroupKey env s h gn else Inr gn) = Inr n"
        "set_prop h g ''name'' n = Inr h1"
        "group_options_loop env s gn os h1 = (ro, h')"
    | (rec) gn n "h1" os h2 where "get_prop h g ''name'' = Inr gn"
        "(if headers env then i18nOptionGroupKey env s h gn else Inr gn) = Inr n"
        "set_prop h g ''name'' n = Inr h1"
        "group_options_loop env s gn os h1 = (None, h2)"
        "groups_array_loop env s rest (vals @ [g]) h2 = (r, h')"
    by (auto split: sum.splits prod.splits if_splits option.splits)
  then show ?case
  proof cases
    case stop
    with Cons.prems(2) show ?thesis by simp
  next
    case named
    have "written env h g n"
      using named(1,2) i18nOptionGroupKey_form
      by (cases "headers env") (auto simp: written_def)
    with set0 named(3) Cons.prems(2) show ?thesis by blast
  next
    case inner
    have "written env h g n"
      using inner(1,2) i18nOptionGroupKey_form
      by (cases "headers env") (auto simp: written_def)
    with set0 inner(3) Cons.prems(2) have "R h0 h1" by blast
    with gl [OF inner(4)] show ?thesis .
  next
    case rec
    have "written env h g n"
      using rec(1,2) i18nOptionGroupKey_form
      by (cases "headers env") (auto simp: written_def)
    with set0 rec(3) Cons.prems(2) have "R h0 h1" by blast
    with gl [OF rec(4)] have "R h0 h2" .
    with Cons.IH [OF rec(5)] show ?thesis .
  qed
qed

lemma options_array_loop_writes:
  assumes alloc0: "\<forall>h hs. R h0 h \<longrightarrow> R h0 (h @ hs)"
    and set0: "\<forall>h v x h'. set_prop h v ''name'' x = Inr h' \<longrightarrow> written env h v x \<longrightarrow>
      R h0 h \<longrightarrow> R h0 h'"
  shows "options_array_loop env s es vals h = (r, h') \<Longrightarrow> R h0 h \<Longrightarrow> R h0 h'"
proof (induction es arbitrary: vals h)
  case Nil
  then show ?case by auto
next
  case (Cons it0 rest)
  obtain it h1 where a: "(case it0 of Str x \<Rightarrow> alloc h (Obj [(''id'', it0), (''name'', it0)])
           | _ \<Rightarrow> (it0, h)) = (it, h1)" by fastforce
  then have "h1 = h \<or> (\<exists>hs. h1 = h @ hs)"
    by (auto simp: alloc_def split: jsval.splits)
  with alloc0 Cons.prems(2) have r1: "R h0 h1" by blast
  from Cons.prems(1) a consider
      (stop) "h' = h1"
    | (rec) n n' h2 where "get_prop h1 it ''name'' = Inr n"
        "(if headers env then i18nOptionKey env s h1 n else Inr n) = Inr n'"
        "set_prop h1 it ''name'' n' = Inr h2"
        "options_array_loop env s rest (vals @ [it]) h2 = (r, h')"
    by (auto split: sum.splits)
  then show ?case
  proof cases
    case stop
    with r1 show ?thesis by simp
  next
    case rec
    have "written env h1 it n'"
      using rec(1,2) i18nOptionKey_form
      by (cases "headers env") (auto simp: written_def)
    with set0 rec(3) r1 have "R h0 h2" by blast
    with Cons.IH [OF rec(4)] show ?thesis .
  qed
qed

lemma names_only_app: "names_only h0 h \<Longrightarrow> names_only h0 (h @ hs)"
  by (auto simp: names_only_iff nth_append)

lemma names_only_group_options_loop:
  "group_options_loop env s gn os h = (r, h') \<Longrightarrow> names_only h h'"
  by (rule group_options_loop_writes [where R = names_only and ?h0.0 = h])
     (auto intro: names_only_refl names_only_trans names_only_set_name)

lemma names_only_groups_array_loop:
  "groups_array_loop env s gs vals h = (r, h') \<Longrightarrow> names_only h h'"
  by (rule groups_array_loop_writes [where R = names_only and ?h0.0 = h])
     (auto intro: names_only_refl names_only_trans names_only_set_name)

lemma names_only_options_array_loop:
  "options_array_loop env s es vals h = (r, h') \<Longrightarrow> names_only h h'"
  by (rule options_array_loop_writes [where R = names_only and ?h0.0 = h])
     (auto intro: names_only_refl names_only_trans names_only_set_name names_only_app)

section \<open>Malformed arguments\<close>

lemma groups_array_loop_append:
  "groups_array_loop env s (pre @ rest) vals h =
     (case groups_array_loop env s pre vals h of
        (Inl e, h') \<Rightarrow> (Inl e, h')
      | (Inr vs, h') \<Rightarrow> groups_array_loop env s rest vs h')"
  by (induction pre arbitrary: vals h) (auto split: sum.splits prod.splits option.splits)

lemma groups_array_loop_not_object:
  "g \<in> set es \<Longrightarrow> \<not> is_ref g \<Longrightarrow> \<exists>e h'. groups_array_loop env s es vals h = (Inl e, h')"
  by (induction es arbitrary: vals h) (auto split: sum.splits prod.splits option.splits)

text \<open>
  C5. \<open>options\<close> and \<open>groupedOptions\<close> throw their \<open>TypeError\<close> on every argument that is
  not an object (a number, a string, a boolean, \<open>undefined\<close>, \<open>null\<close>), with the setting and
  the store untouched. \<open>groupedOptions\<close> fails on every array that has an element which is
  not an object, and the failure is the \<open>TypeError\<close> of that element when the elements before
  it were processed without error.
\<close>

theorem malformed_input_TypeError:
  "(\<not> is_ref v \<longrightarrow>
      options env s h v = (Some (TypeError (typeof v @ '' not valid for options'')), s, h) \<and>
      groupedOptions env s h v =
        (Some (TypeError (typeof v @ '' not valid for options group'')), s, h)) \<and>
   (cell h a = Some (Arr es ps) \<and> g \<in> set es \<and> \<not> is_ref g \<longrightarrow>
      (\<exists>e h'. groupedOptions env s h (Ref a) = (Some e, s, h'))) \<and>
   (cell h a = Some (Arr (pre @ g # post) ps) \<and> \<not> is_ref g \<and>
    groups_array_loop env s pre [] h = (Inr vs, h1) \<longrightarrow>
      groupedOptions env s h (Ref a) =
        (Some (TypeError (typeof g @ '' not valid for options group item'')), s, h1))"
proof (intro conjI impI)
  assume "\<not> is_ref v"
  then show "options env s h v = (Some (TypeError (typeof v @ '' not valid for options'')), s, h)"
    by (cases v) (simp_all add: options_def)
next
  assume "\<not> is_ref v"
  then show "groupedOptions env s h v =
      (Some (TypeError (typeof v @ '' not valid for options group'')), s, h)"
    by (cases v) (simp_all add: groupedOptions_def)
next
  assume a: "cell h a = Some (Arr es ps) \<and> g \<in> set es \<and> \<not> is_ref g"
  then obtain e h' where "groups_array_loop env s es [] h = (Inl e, h')"
    using groups_array_loop_not_object by blast
  with a show "\<exists>e h'. groupedOptions env s h (Ref a) = (Some e, s, h')"
    by (simp add: groupedOptions_def store_groupedOptions_def)
next
  assume a: "cell h a = Some (Arr (pre @ g # post) ps) \<and> \<not> is_ref g \<and>
    groups_array_loop env s pre [] h = (Inr vs, h1)"
  then have "groups_array_loop env s (pre @ g # post) [] h =
      (Inl (TypeError (typeof g @ '' not valid for options group item'')), h1)"
    by (simp add: groups_array_loop_append)
  with a show "groupedOptions env s h (Ref a) =
      (Some (TypeError (typeof g @ '' not valid for options group item'')), s, h1)"
    by (simp add: groupedOptions_def store_groupedOptions_def)
qed

theorem malformed_input_TypeError_witness:
  "options page_plain (EnumSetting ''e'') [] (Num 42) =
     (Some (TypeError ''number not valid for options''), EnumSetting ''e'', []) \<and>
   options page_plain (EnumSetting ''e'') [] (Str ''str'') =
     (Some (TypeError ''string not valid for options''), EnumSetting ''e'', []) \<and>
   groupedOptions page_plain (EnumSetting ''e'') [Arr [Num 1, Num 2, Num 3] []] (Ref 0) =
     (Some (TypeError ''number not valid for options group item''), EnumSetting ''e'',
      [Arr [Num 1, Num 2, Num 3] []])"
  using malformed_input_TypeError [where v = "Num 42" and env = page_plain
      and s = "EnumSetting ''e''" and h = "[]"]
    malformed_input_TypeError [where v = "Str ''str''" and env = page_plain
      and s = "EnumSetting ''e''" and h = "[]"]
    malformed_input_TypeError [where env = page_plain and s = "EnumSetting ''e''"
      and h = "[Arr [Num 1, Num 2, Num 3] []]" and a = 0 and g = "Num 1" and pre = "[]"
      and post = "[Num 2, Num 3]" and ps = "[]" and vs = "[]"
      and ?h1.0 = "[Arr [Num 1, Num 2, Num 3] []]"]
  by (simp add: cell_def)

section \<open>What \<open>toJson\<close> does to the store\<close>

lemma has_key_iff: "has_key k ps \<longleftrightarrow> k \<in> set (map fst ps)"
  by (induction ps) auto

lemma prop_set_same: "has_key k ps \<Longrightarrow> prop_set k (prop_get ps k) ps = ps"
  by (induction ps) auto

lemma prop_get_prop_set: "prop_get (prop_set k v ps) k' = (if k' = k then v else prop_get ps k')"
  by (induction ps) auto

lemma prop_set_key: "has_key k (prop_set k v ps)"
  by (induction ps) auto

lemma own_props_with_props: "own_props (with_props ps ob) = ps"
  by (cases ob) auto

lemma with_props_own: "with_props (own_props ob) ob = ob"
  by (cases ob) auto

lemma settles_refl: "settles env h h"
  by (simp add: settles_def names_only_refl)

lemma settles_trans: "settles env h h' \<Longrightarrow> settles env h' h'' \<Longrightarrow> settles env h h''"
  unfolding settles_def using names_only_trans by auto

lemma settles_names_only: "settles env h h' \<Longrightarrow> names_only h h'"
  by (simp add: settles_def)

lemma settled_val_settles: "settles env h h' \<Longrightarrow> settled_val env h v \<Longrightarrow> settled_val env h' v"
  by (auto simp: settles_def settled_val_def)

lemma settles_set:
  assumes idem: "\<forall>v. translate env (translate env v) = translate env v"
    and g: "get_prop h v ''name'' = Inr n"
    and s: "set_prop h v ''name'' (translate env n) = Inr h'"
  shows "settles env h h' \<and> settled_val env h' v"
proof -
  from s obtain a where v: "v = Ref a" and a: "a < length h"
    and h': "h' = h[a := with_props (prop_set ''name'' (translate env n) (own_props (h ! a))) (h ! a)]"
    by (auto simp: set_prop_def cell_def split: jsval.splits if_splits)
  from g v a have n: "n = prop_get (own_props (h ! a)) ''name''"
    by (simp add: get_prop_def cell_def)
  have "names_only h h'" using s by (rule names_only_set_name)
  moreover have "length h' = length h" using h' by simp
  moreover have "h' ! b = h ! b" if "b < length h" "name_settled env (h ! b)" for b
  proof (cases "b = a")
    case True
    with that n have "translate env n = n" "has_key ''name'' (own_props (h ! a))"
      by (auto simp: name_settled_def)
    then have "prop_set ''name'' (translate env n) (own_props (h ! a)) = own_props (h ! a)"
      using n prop_set_same by metis
    with h' True a show ?thesis by (simp add: with_props_own)
  next
    case False
    with h' show ?thesis by simp
  qed
  moreover have "settled_val env h' v"
    using v a h' idem
    by (simp add: settled_val_def name_settled_def own_props_with_props prop_set_key prop_get_prop_set)
  ultimately show ?thesis by (simp add: settles_def)
qed

lemma set_settled_noop:
  assumes "settled_val env h v"
  shows "\<exists>n. get_prop h v ''name'' = Inr n \<and> set_prop h v ''name'' (translate env n) = Inr h"
proof -
  from assms obtain a where v: "v = Ref a" and a: "a < length h" and ns: "name_settled env (h ! a)"
    by (auto simp: settled_val_def)
  let ?n = "prop_get (own_props (h ! a)) ''name''"
  from ns have "prop_set ''name'' (translate env ?n) (own_props (h ! a)) = own_props (h ! a)"
    using prop_set_same by (metis name_settled_def)
  with v a show ?thesis
    by (simp add: get_prop_def set_prop_def cell_def with_props_own)
qed

lemma translate_names_settles:
  assumes idem: "\<forall>v. translate env (translate env v) = translate env v"
  shows "translate_names env es h = (None, h') \<Longrightarrow>
     settles env h h' \<and> (\<forall>x \<in> set es. settled_val env h' x)"
proof (induction es arbitrary: h)
  case Nil
  then show ?case by (simp add: settles_refl)
next
  case (Cons it rest)
  from Cons.prems obtain n h1 where n: "get_prop h it ''name'' = Inr n"
    and s: "set_prop h it ''name'' (translate env n) = Inr h1"
    and r: "translate_names env rest h1 = (None, h')"
    by (auto split: sum.splits)
  from settles_set [OF idem n s] have a: "settles env h h1" "settled_val env h1 it" by simp_all
  from Cons.IH [OF r] have b: "settles env h1 h'" "\<forall>x \<in> set rest. settled_val env h' x" by simp_all
  from a b show ?case using settles_trans settled_val_settles by (metis set_ConsD)
qed

lemma translate_names_noop:
  "\<forall>x \<in> set es. settled_val env h x \<Longrightarrow> translate_names env es h = (None, h)"
proof (induction es)
  case Nil
  then show ?case by simp
next
  case (Cons it rest)
  then obtain n where "get_prop h it ''name'' = Inr n" "set_prop h it ''name'' (translate env n) = Inr h"
    using set_settled_noop by (metis list.set_intros(1))
  with Cons show ?case by simp
qed

lemma prop_get_sans_name: "k \<noteq> ''name'' \<Longrightarrow> prop_get (sans_name ps) k = prop_get ps k"
  by (induction ps) (auto simp: sans_name_def)

lemma keys_sans_name: "k \<noteq> ''name'' \<Longrightarrow> has_key k (sans_name ps) \<longleftrightarrow> has_key k ps"
  by (induction ps) (auto simp: sans_name_def)

lemma same_but_name_prop_get:
  "same_but_name ob ob' \<Longrightarrow> k \<noteq> ''name'' \<Longrightarrow> prop_get (own_props ob') k = prop_get (own_props ob) k"
  by (cases ob; cases ob') (auto dest: arg_cong [where f = "\<lambda>ps. prop_get ps k"] simp: prop_get_sans_name)

lemma same_but_name_keys:
  "same_but_name ob ob' \<Longrightarrow> k \<noteq> ''name'' \<Longrightarrow>
     has_key k (own_props ob') \<longleftrightarrow> has_key k (own_props ob)"
  by (cases ob; cases ob') (auto dest: arg_cong [where f = "has_key k"] simp: keys_sans_name)

lemma get_prop_names_only:
  "names_only h h' \<Longrightarrow> k \<noteq> ''name'' \<Longrightarrow> get_prop h v k = Inr x \<Longrightarrow> get_prop h' v k = Inr x"
  by (auto simp: names_only_iff get_prop_def cell_def same_but_name_prop_get
      split: jsval.splits if_splits)

lemma indexed_names_only:
  "names_only h h' \<Longrightarrow> indexed h v = Inr os \<Longrightarrow> indexed h' v = Inr os"
proof (cases v)
  case (Ref a)
  assume n: "names_only h h'" and i: "indexed h v = Inr os"
  from i Ref have a: "a < length h" by (auto simp: indexed_def cell_def split: if_splits)
  with n have s: "same_but_name (h ! a) (h' ! a)" and a': "a < length h'"
    by (auto simp: names_only_iff)
  show ?thesis
  proof (cases "h ! a")
    case (Obj ps)
    with s obtain qs where q: "h' ! a = Obj qs" by (cases "h' ! a") auto
    from same_but_name_keys [OF s, of "''length''"] Obj q
    have "''length'' \<in> set (map fst qs) \<longleftrightarrow> ''length'' \<in> set (map fst ps)"
      by (simp add: has_key_iff)
    with i Ref a a' Obj q show ?thesis
      by (simp add: indexed_def cell_def split: if_splits)
  next
    case (Arr es ps)
    with s obtain qs where q: "h' ! a = Arr es qs" by (cases "h' ! a") auto
    with i Ref a a' Arr show ?thesis by (auto simp: indexed_def cell_def)
  qed
qed (auto simp: indexed_def)

lemma settled_group_settles:
  assumes "settles env h h'" "settled_group env h g"
  shows "settled_group env h' g"
proof -
  from assms(2) obtain ov os where sv: "settled_val env h g"
    and o: "get_prop h g ''options'' = Inr ov" and i: "indexed h ov = Inr os"
    and x: "\<forall>x \<in> set os. settled_val env h x"
    by (auto simp: settled_group_def)
  have n: "names_only h h'" using assms(1) by (rule settles_names_only)
  have "get_prop h' g ''options'' = Inr ov" using get_prop_names_only [OF n _ o] by simp
  moreover have "indexed h' ov = Inr os" using indexed_names_only [OF n i] .
  ultimately show ?thesis
    using sv x assms(1) settled_val_settles unfolding settled_group_def by blast
qed

lemma translate_groups_settles:
  assumes idem: "\<forall>v. translate env (translate env v) = translate env v"
  shows "translate_groups env gs h = (None, h') \<Longrightarrow>
     settles env h h' \<and> (\<forall>g \<in> set gs. settled_group env h' g)"
proof (induction gs arbitrary: h)
  case Nil
  then show ?case by (simp add: settles_refl)
next
  case (Cons g rest)
  from Cons.prems obtain n h1 ov os h2 where n: "get_prop h g ''name'' = Inr n"
    and s: "set_prop h g ''name'' (translate env n) = Inr h1"
    and o: "get_prop h1 g ''options'' = Inr ov"
    and i: "indexed h1 ov = Inr os"
    and t: "translate_names env os h1 = (None, h2)"
    and r: "translate_groups env rest h2 = (None, h')"
    by (auto split: sum.splits prod.splits option.splits)
  from settles_set [OF idem n s] have a: "settles env h h1" "settled_val env h1 g" by simp_all
  from translate_names_settles [OF idem t]
  have b: "settles env h1 h2" "\<forall>x \<in> set os. settled_val env h2 x" by simp_all
  from Cons.IH [OF r] have c: "settles env h2 h'" "\<forall>g \<in> set rest. settled_group env h' g"
    by simp_all
  have n12: "names_only h1 h2" using b(1) by (rule settles_names_only)
  have "settled_group env h2 g"
    unfolding settled_group_def
    using settled_val_settles [OF b(1) a(2)] get_prop_names_only [OF n12 _ o]
      indexed_names_only [OF n12 i] b(2) by auto
  then have "settled_group env h' g" using c(1) settled_group_settles by blast
  moreover have "settles env h h'" using a(1) b(1) c(1) settles_trans by blast
  ultimately show ?case using c(2) by simp
qed

lemma translate_groups_noop:
  "\<forall>g \<in> set gs. settled_group env h g \<Longrightarrow> translate_groups env gs h = (None, h)"
proof (induction gs)
  case Nil
  then show ?case by simp
next
  case (Cons g rest)
  then have sg: "settled_group env h g" by simp
  then obtain ov os where sv: "settled_val env h g"
    and o: "get_prop h g ''options'' = Inr ov" and i: "indexed h ov = Inr os"
    and x: "\<forall>x \<in> set os. settled_val env h x"
    by (auto simp: settled_group_def)
  from set_settled_noop [OF sv] obtain n where "get_prop h g ''name'' = Inr n"
    "set_prop h g ''name'' (translate env n) = Inr h" by blast
  with o i translate_names_noop [OF x] Cons show ?case by simp
qed


lemma names_only_translate_names:
  "translate_names env es h = (r, h') \<Longrightarrow> names_only h h'"
proof (induction es arbitrary: h)
  case Nil
  then show ?case by (simp add: names_only_refl)
next
  case (Cons it rest)
  then show ?case
    by (auto split: sum.splits intro: names_only_refl names_only_trans names_only_set_name)
qed

lemma names_only_translate_groups:
  "translate_groups env gs h = (r, h') \<Longrightarrow> names_only h h'"
proof (induction gs arbitrary: h)
  case Nil
  then show ?case by (simp add: names_only_refl)
next
  case (Cons g rest)
  show ?case
  proof (cases "get_prop h g ''name''")
    case (Inl e)
    with Cons.prems show ?thesis by (simp add: names_only_refl)
  next
    case n: (Inr n)
    show ?thesis
    proof (cases "set_prop h g ''name'' (translate env n)")
      case (Inl e)
      with n Cons.prems show ?thesis by (simp add: names_only_refl)
    next
      case h1: (Inr h1)
      then have f1: "names_only h h1" by (rule names_only_set_name)
      show ?thesis
      proof (cases "get_prop h1 g ''options''")
        case (Inl e)
        with n h1 f1 Cons.prems show ?thesis by simp
      next
        case ov: (Inr ov)
        show ?thesis
        proof (cases "indexed h1 ov")
          case (Inl e)
          with n h1 f1 ov Cons.prems show ?thesis by simp
        next
          case os: (Inr os)
          obtain r2 h2 where t: "translate_names env os h1 = (r2, h2)"
            by (cases "translate_names env os h1")
          then have f2: "names_only h h2"
            using f1 names_only_translate_names names_only_trans by blast
          show ?thesis
          proof (cases r2)
            case None
            with n h1 ov os t Cons.prems have "translate_groups env rest h2 = (r, h')" by simp
            then have "names_only h2 h'" by (rule Cons.IH)
            with f2 show ?thesis by (rule names_only_trans)
          next
            case (Some e)
            with n h1 ov os t Cons.prems f2 show ?thesis by simp
          qed
        qed
      qed
    qed
  qed
qed

lemma names_only_toJson_groupedOptions:
  "toJson_groupedOptions env s h = (r, h') \<Longrightarrow> names_only h h'"
  by (auto simp: toJson_groupedOptions_def split: if_splits sum.splits
      intro: names_only_refl names_only_translate_groups)

lemma names_only_toJson_options:
  "toJson_options env s h = (r, h') \<Longrightarrow> names_only h h'"
  by (auto simp: toJson_options_def split: if_splits sum.splits
      intro: names_only_refl names_only_translate_names)

lemma isArray_names_only: "names_only h h' \<Longrightarrow> isArray h v \<Longrightarrow> isArray h' v"
proof -
  assume n: "names_only h h'" and a: "isArray h v"
  from a obtain a es ps where v: "v = Ref a" and c: "a < length h" "h ! a = Arr es ps"
    by (auto simp: isArray_def cell_def split: jsval.splits option.splits obj.splits if_splits)
  from n c have "same_but_name (Arr es ps) (h' ! a)" "a < length h'"
    by (auto simp: names_only_iff)
  then show ?thesis using v
    by (cases "h' ! a") (auto simp: isArray_def cell_def)
qed

lemma names_only_append: "names_only h (h @ [ob])"
  using names_only_alloc [of h ob] by (simp add: alloc_def)

lemma get_prop_fresh: "get_prop (h @ [ob]) (Ref (length h)) k = Inr (prop_get (own_props ob) k)"
  by (simp add: get_prop_def cell_def)

lemma result_props_options: "prop_get (result_props env s g True) ''options'' = f_options s"
  by (simp add: result_props_def Let_def prop_get_prop_set)

lemma result_props_groupedOptions:
  "prop_get (result_props env s True f) ''groupedOptions'' = f_groupedOptions s"
  by (simp add: result_props_def Let_def prop_get_prop_set)

lemma toJson_names_only: "toJson env s h = (r, h') \<Longrightarrow> names_only h h'"
proof -
  assume t: "toJson env s h = (r, h')"
  obtain rg h1 where g: "toJson_groupedOptions env s h = (rg, h1)"
    by (cases "toJson_groupedOptions env s h")
  then have n1: "names_only h h1" by (rule names_only_toJson_groupedOptions)
  obtain ro h2 where o: "toJson_options env s h1 = (ro, h2)"
    by (cases "toJson_options env s h1")
  then have n2: "names_only h h2"
    using n1 names_only_toJson_options names_only_trans by blast
  have n3: "names_only h (h2 @ [ob])" for ob
    using names_only_trans [OF n2 names_only_append] .
  from t g o n1 n2 n3 show ?thesis
    by (auto simp: toJson_def alloc_def split: option.splits)
qed

lemma toJson_document:
  assumes "toJson env s h = (Inr d, h')"
  shows "\<exists>h1 h2. names_only h h1 \<and> d = Ref (length h2) \<and>
     h' = h2 @ [Obj (result_props env s (isArray h (f_groupedOptions s))
                       (isArray h1 (f_options s)))]"
proof -
  from assms obtain h1 h2 where g: "toJson_groupedOptions env s h = (None, h1)"
    and "d = Ref (length h2)"
    and "h' = h2 @ [Obj (result_props env s (isArray h (f_groupedOptions s))
                          (isArray h1 (f_options s)))]"
    by (auto simp: toJson_def alloc_def split: prod.splits option.splits)
  with names_only_toJson_groupedOptions [OF g] show ?thesis by blast
qed




section \<open>\<open>toJson\<close> twice\<close>

lemma settled_val_append: "settled_val env h v \<Longrightarrow> settled_val env (h @ [ob]) v"
  by (auto simp: settled_val_def nth_append)

lemma settled_group_append:
  assumes "settled_group env h g"
  shows "settled_group env (h @ [ob]) g"
proof -
  from assms obtain ov os where sv: "settled_val env h g"
    and o: "get_prop h g ''options'' = Inr ov" and i: "indexed h ov = Inr os"
    and x: "\<forall>x \<in> set os. settled_val env h x"
    by (auto simp: settled_group_def)
  have "get_prop (h @ [ob]) g ''options'' = Inr ov"
    using get_prop_names_only [OF names_only_append _ o] by simp
  moreover have "indexed (h @ [ob]) ov = Inr os"
    using indexed_names_only [OF names_only_append i] .
  moreover have "settled_val env (h @ [ob]) g" using sv by (rule settled_val_append)
  moreover have "\<forall>x \<in> set os. settled_val env (h @ [ob]) x"
    using x settled_val_append by blast
  ultimately show ?thesis unfolding settled_group_def by blast
qed

lemma iter_of_names_only:
  "names_only h h' \<Longrightarrow> iter_of h v = Inr es \<Longrightarrow> iter_of h' v = Inr es"
proof (cases v)
  case (Ref a)
  assume n: "names_only h h'" and i: "iter_of h v = Inr es"
  from i Ref obtain ps where a: "a < length h" "h ! a = Arr es ps"
    by (auto simp: iter_of_def cell_def split: if_splits obj.splits)
  with n have "same_but_name (Arr es ps) (h' ! a)" "a < length h'"
    by (auto simp: names_only_iff)
  then show ?thesis using Ref by (cases "h' ! a") (auto simp: iter_of_def cell_def)
qed (auto simp: iter_of_def)

lemma isArray_settles_append:
  assumes "settles env h h2"
  shows "isArray (h2 @ [Obj ps]) v = isArray h v" and "isArray h2 v = isArray h v"
proof -
  have n: "names_only h h2" and l: "length h2 = length h" using assms by (auto simp: settles_def)
  have *: "(\<exists>es qs. h2 ! a = Arr es qs) = (\<exists>es qs. h ! a = Arr es qs)" if "a < length h" for a
  proof -
    from n that have "same_but_name (h ! a) (h2 ! a)" by (simp add: names_only_iff)
    then show ?thesis by (cases "h ! a"; cases "h2 ! a") auto
  qed
  show "isArray (h2 @ [Obj ps]) v = isArray h v"
  proof (cases v)
    case (Ref a)
    then show ?thesis using * [of a] l
      by (auto simp: isArray_def cell_def nth_append split: obj.splits)
  qed (auto simp: isArray_def)
  show "isArray h2 v = isArray h v"
  proof (cases v)
    case (Ref a)
    then show ?thesis using * [of a] l
      by (auto simp: isArray_def cell_def split: obj.splits)
  qed (auto simp: isArray_def)
qed

lemma toJson_groupedOptions_settles:
  assumes idem: "\<forall>v. translate env (translate env v) = translate env v"
    and t: "toJson_groupedOptions env s h = (None, h')"
  shows "settles env h h'"
    and "isArray h (f_groupedOptions s) \<Longrightarrow>
      \<exists>gs. iter_of h (f_groupedOptions s) = Inr gs \<and> (\<forall>g \<in> set gs. settled_group env h' g)"
  using t translate_groups_settles [OF idem]
  by (auto simp: toJson_groupedOptions_def settles_refl split: if_splits sum.splits)

lemma toJson_options_settles:
  assumes idem: "\<forall>v. translate env (translate env v) = translate env v"
    and t: "toJson_options env s h = (None, h')"
  shows "settles env h h'"
    and "isArray h (f_options s) \<Longrightarrow>
      \<exists>os. iter_of h (f_options s) = Inr os \<and> (\<forall>x \<in> set os. settled_val env h' x)"
  using t translate_names_settles [OF idem]
  by (auto simp: toJson_options_def settles_refl split: if_splits sum.splits)

text \<open>
  C3, as stated, fails. \<open>translate\<close> of \<open>page_i18n\<close> is a pure function. The first \<open>toJson\<close>
  returns a document whose option is named \<open>k:settings.e.options.a.name!\<close>; the second
  translates that name again and returns a document whose option is named
  \<open>k:settings.e.options.a.name!!\<close>.
\<close>

theorem toJson_twice_differs:
  "toJson page_i18n ((EnumSetting ''e'')\<lparr>f_options := Ref 2\<rparr>)
     [Arr [Str ''a''] [],
      Obj [(''id'', Str ''a''), (''name'', Str ''k:settings.e.options.a.name'')],
      Arr [Ref 1] []] =
     (Inr (Ref 3),
      [Arr [Str ''a''] [],
       Obj [(''id'', Str ''a''), (''name'', Str ''k:settings.e.options.a.name!'')],
       Arr [Ref 1] [],
       Obj [(''id'', Str ''e''), (''type'', Str ''ENUM''), (''options'', Ref 2)]]) \<and>
   toJson page_i18n ((EnumSetting ''e'')\<lparr>f_options := Ref 2\<rparr>)
     [Arr [Str ''a''] [],
      Obj [(''id'', Str ''a''), (''name'', Str ''k:settings.e.options.a.name!'')],
      Arr [Ref 1] [],
      Obj [(''id'', Str ''e''), (''type'', Str ''ENUM''), (''options'', Ref 2)]] =
     (Inr (Ref 4),
      [Arr [Str ''a''] [],
       Obj [(''id'', Str ''a''), (''name'', Str ''k:settings.e.options.a.name!!'')],
       Arr [Ref 1] [],
       Obj [(''id'', Str ''e''), (''type'', Str ''ENUM''), (''options'', Ref 2)],
       Obj [(''id'', Str ''e''), (''type'', Str ''ENUM''), (''options'', Ref 2)]]) \<and>
   read_options
     [Arr [Str ''a''] [],
      Obj [(''id'', Str ''a''), (''name'', Str ''k:settings.e.options.a.name!'')],
      Arr [Ref 1] [],
      Obj [(''id'', Str ''e''), (''type'', Str ''ENUM''), (''options'', Ref 2)]] (Ref 2) \<noteq>
   read_options
     [Arr [Str ''a''] [],
      Obj [(''id'', Str ''a''), (''name'', Str ''k:settings.e.options.a.name!!'')],
      Arr [Ref 1] [],
      Obj [(''id'', Str ''e''), (''type'', Str ''ENUM''), (''options'', Ref 2)],
      Obj [(''id'', Str ''e''), (''type'', Str ''ENUM''), (''options'', Ref 2)]] (Ref 2)"
  by code_simp

text \<open>
  C3, amended. When \<open>translate\<close> returns its own results unchanged
  (\<open>translate (translate v) = translate v\<close>) and \<open>toJson\<close> has returned a document, a second
  \<open>toJson\<close> on the same setting changes no object of the store and returns a new document
  equal to the first, which is the last object of the store.
\<close>

theorem toJson_again_idempotent_translate:
  assumes idem: "\<forall>v. translate env (translate env v) = translate env v"
    and t: "toJson env s h = (Inr d, h1)"
  shows "d = Ref (length h1 - 1) \<and>
     toJson env s h1 = (Inr (Ref (length h1)), h1 @ [last h1])"
proof -
  from t obtain hg h2 where g: "toJson_groupedOptions env s h = (None, hg)"
    and o: "toJson_options env s hg = (None, h2)"
    and d: "d = Ref (length h2)"
    and h1: "h1 = h2 @ [Obj (result_props env s (isArray h (f_groupedOptions s))
                                   (isArray hg (f_options s)))]"
    by (auto simp: toJson_def alloc_def split: prod.splits option.splits)
  let ?doc = "Obj (result_props env s (isArray h (f_groupedOptions s)) (isArray hg (f_options s)))"
  note sg = toJson_groupedOptions_settles [OF idem g]
  note so = toJson_options_settles [OF idem o]
  have s2: "settles env h h2" using sg(1) so(1) settles_trans by blast
  have n_h_h1: "names_only h h1"
    using settles_names_only [OF s2] names_only_append names_only_trans h1 by blast
  have n_hg_h1: "names_only hg h1"
    using settles_names_only [OF so(1)] names_only_append names_only_trans h1 by blast
  have ag: "isArray h1 (f_groupedOptions s) = isArray h (f_groupedOptions s)"
    using isArray_settles_append(1) [OF s2] h1 by simp
  have ao: "isArray h1 (f_options s) = isArray hg (f_options s)"
    using isArray_settles_append(1) [OF so(1)] h1 by simp
  have g': "toJson_groupedOptions env s h1 = (None, h1)"
  proof (cases "isArray h (f_groupedOptions s)")
    case True
    with sg(2) obtain gs where i: "iter_of h (f_groupedOptions s) = Inr gs"
      and st: "\<forall>g \<in> set gs. settled_group env hg g" by blast
    have "\<forall>g \<in> set gs. settled_group env h1 g"
      using st settled_group_settles [OF so(1)] settled_group_append h1 by blast
    then have "translate_groups env gs h1 = (None, h1)" by (rule translate_groups_noop)
    with iter_of_names_only [OF n_h_h1 i] True ag show ?thesis
      by (simp add: toJson_groupedOptions_def)
  next
    case False
    with ag show ?thesis by (simp add: toJson_groupedOptions_def)
  qed
  have o': "toJson_options env s h1 = (None, h1)"
  proof (cases "isArray hg (f_options s)")
    case True
    with so(2) obtain os where i: "iter_of hg (f_options s) = Inr os"
      and st: "\<forall>x \<in> set os. settled_val env h2 x" by blast
    have "\<forall>x \<in> set os. settled_val env h1 x"
      using st settled_val_append h1 by blast
    then have "translate_names env os h1 = (None, h1)" by (rule translate_names_noop)
    with iter_of_names_only [OF n_hg_h1 i] True ao show ?thesis
      by (simp add: toJson_options_def)
  next
    case False
    with ao show ?thesis by (simp add: toJson_options_def)
  qed
  from g' o' ag ao h1 d show ?thesis
    by (simp add: toJson_def alloc_def)
qed

theorem toJson_again_idempotent_translate_witness:
  "toJson page_table ((EnumSetting ''e'')\<lparr>f_options := Ref 2\<rparr>)
     [Arr [Str ''a''] [],
      Obj [(''id'', Str ''a''), (''name'', Str ''Apple'')],
      Arr [Ref 1] [],
      Obj [(''id'', Str ''e''), (''type'', Str ''ENUM''), (''options'', Ref 2)]] =
     (Inr (Ref 4),
      [Arr [Str ''a''] [],
       Obj [(''id'', Str ''a''), (''name'', Str ''Apple'')],
       Arr [Ref 1] [],
       Obj [(''id'', Str ''e''), (''type'', Str ''ENUM''), (''options'', Ref 2)],
       Obj [(''id'', Str ''e''), (''type'', Str ''ENUM''), (''options'', Ref 2)]])"
proof -
  have i: "\<forall>v. translate page_table (translate page_table v) = translate page_table v"
    by (simp add: page_table_def)
  have e: "toJson page_table ((EnumSetting ''e'')\<lparr>f_options := Ref 2\<rparr>)
     [Arr [Str ''a''] [],
      Obj [(''id'', Str ''a''), (''name'', Str ''settings.e.options.a.name'')],
      Arr [Ref 1] []] =
     (Inr (Ref 3),
      [Arr [Str ''a''] [],
       Obj [(''id'', Str ''a''), (''name'', Str ''Apple'')],
       Arr [Ref 1] [],
       Obj [(''id'', Str ''e''), (''type'', Str ''ENUM''), (''options'', Ref 2)]])"
    by code_simp
  from toJson_again_idempotent_translate [OF i e] show ?thesis by simp
qed

section \<open>A call that fails\<close>

lemma not_TypeError: "engine_error e \<Longrightarrow> e \<noteq> TypeError m"
  by (auto simp: engine_error_def)




section \<open>Both fields\<close>

lemma isArray_app: "isArray h v \<Longrightarrow> isArray (h @ hs) v"
  by (auto simp: isArray_def cell_def nth_append split: jsval.splits if_splits)

lemma isArray_kept_options_array_loop:
  "options_array_loop env s es vals h = (r, h') \<Longrightarrow> isArray h x \<Longrightarrow> isArray h' x"
  using names_only_options_array_loop isArray_names_only by blast

lemma isArray_kept_groups_array_loop:
  "groups_array_loop env s es vals h = (r, h') \<Longrightarrow> isArray h x \<Longrightarrow> isArray h' x"
  using names_only_groups_array_loop isArray_names_only by blast

lemma isArray_kept_options_object_loop:
  "options_object_loop env s opts ps vals h = (r, h') \<Longrightarrow> isArray h x \<Longrightarrow> isArray h' x"
  by (rule options_object_loop_rel [where R = "\<lambda>h0 h. isArray h0 x \<longrightarrow> isArray h x" and ?h0.0 = h,
        rule_format])
     (auto intro: isArray_app isArray_set_prop)

lemma isArray_kept_groups_object_loop:
  "groups_object_loop env s groups ps vals h = (r, h') \<Longrightarrow> isArray h x \<Longrightarrow> isArray h' x"
  by (rule groups_object_loop_rel [where R = "\<lambda>h0 h. isArray h0 x \<longrightarrow> isArray h x" and ?h0.0 = h,
        rule_format])
     (auto intro: isArray_app isArray_set_prop isArray_js_push)

lemma isArray_fresh: "isArray (h @ [Arr es ps]) (Ref (length h))"
  by (simp add: isArray_def cell_def)

lemma options_keeps:
  "options env s h v = (r, s', h') \<Longrightarrow>
     f_groupedOptions s' = f_groupedOptions s \<and> (isArray h x \<longrightarrow> isArray h' x) \<and>
     (r = None \<longrightarrow> isArray h' (f_options s'))"
  by (auto simp: options_def store_options_def alloc_def isArray_fresh
      split: jsval.splits option.splits obj.splits sum.splits prod.splits
      intro: isArray_app
      dest: isArray_kept_options_array_loop isArray_kept_options_object_loop)

lemma groupedOptions_keeps:
  "groupedOptions env s h v = (r, s', h') \<Longrightarrow>
     f_options s' = f_options s \<and> (isArray h x \<longrightarrow> isArray h' x) \<and>
     (r = None \<longrightarrow> isArray h' (f_groupedOptions s'))"
  by (auto simp: groupedOptions_def store_groupedOptions_def alloc_def isArray_fresh
      split: jsval.splits option.splits obj.splits sum.splits prod.splits
      intro: isArray_app
      dest: isArray_kept_groups_array_loop isArray_kept_groups_object_loop)


lemma toJson_fields:
  assumes "toJson env s h = (Inr d, h')" "isArray h (f_options s)" "isArray h (f_groupedOptions s)"
  shows "get_prop h' d ''options'' = Inr (f_options s) \<and> isArray h' (f_options s) \<and>
     get_prop h' d ''groupedOptions'' = Inr (f_groupedOptions s) \<and>
     isArray h' (f_groupedOptions s)"
proof -
  from toJson_document [OF assms(1)] obtain h1 h2 where n: "names_only h h1"
    and d: "d = Ref (length h2)"
    and h': "h' = h2 @ [Obj (result_props env s (isArray h (f_groupedOptions s))
                          (isArray h1 (f_options s)))]"
    by blast
  have flat: "isArray h1 (f_options s)" using n assms(2) by (rule isArray_names_only)
  have kept: "isArray h' (f_options s)" "isArray h' (f_groupedOptions s)"
    using toJson_names_only [OF assms(1)] assms(2,3) isArray_names_only by blast+
  show ?thesis
    unfolding d h' get_prop_fresh
    using flat assms(3) kept
    by (simp add: result_props_options result_props_groupedOptions d h')
qed

text \<open>
  C8. \<open>options\<close> does not assign \<open>_groupedOptions\<close> and \<open>groupedOptions\<close> does not assign
  \<open>_options\<close>. After both have returned, in either order, the document that \<open>toJson\<close>
  returns has the property \<open>options\<close>, which is the stored array of options, and the property
  \<open>groupedOptions\<close>, which is the stored array of groups.
\<close>

theorem both_fields_in_document:
  "(options env s h v = (r, s', h') \<longrightarrow> f_groupedOptions s' = f_groupedOptions s) \<and>
   (groupedOptions env s h v = (r, s', h') \<longrightarrow> f_options s' = f_options s) \<and>
   (options env s h v = (None, s1, h1) \<and> groupedOptions env s1 h1 w = (None, s2, h2) \<and>
    toJson env s2 h2 = (Inr d, h3) \<longrightarrow>
      get_prop h3 d ''options'' = Inr (f_options s2) \<and> isArray h3 (f_options s2) \<and>
      get_prop h3 d ''groupedOptions'' = Inr (f_groupedOptions s2) \<and>
      isArray h3 (f_groupedOptions s2)) \<and>
   (groupedOptions env s h v = (None, s1, h1) \<and> options env s1 h1 w = (None, s2, h2) \<and>
    toJson env s2 h2 = (Inr d, h3) \<longrightarrow>
      get_prop h3 d ''options'' = Inr (f_options s2) \<and> isArray h3 (f_options s2) \<and>
      get_prop h3 d ''groupedOptions'' = Inr (f_groupedOptions s2) \<and>
      isArray h3 (f_groupedOptions s2))"
proof -
  have 1: "options env s h v = (r, s', h') \<longrightarrow> f_groupedOptions s' = f_groupedOptions s"
    using options_keeps by blast
  have 2: "groupedOptions env s h v = (r, s', h') \<longrightarrow> f_options s' = f_options s"
    using groupedOptions_keeps by blast
  have 3: "options env s h v = (None, s1, h1) \<and> groupedOptions env s1 h1 w = (None, s2, h2) \<and>
    toJson env s2 h2 = (Inr d, h3) \<longrightarrow>
      get_prop h3 d ''options'' = Inr (f_options s2) \<and> isArray h3 (f_options s2) \<and>
      get_prop h3 d ''groupedOptions'' = Inr (f_groupedOptions s2) \<and>
      isArray h3 (f_groupedOptions s2)"
  proof
    assume a: "options env s h v = (None, s1, h1) \<and>
      groupedOptions env s1 h1 w = (None, s2, h2) \<and> toJson env s2 h2 = (Inr d, h3)"
    from a options_keeps have "isArray h1 (f_options s1)" by blast
    with a groupedOptions_keeps [of env s1 h1 w None s2 h2 "f_options s1"]
    have "isArray h2 (f_options s2)" "isArray h2 (f_groupedOptions s2)" by auto
    with a toJson_fields show "get_prop h3 d ''options'' = Inr (f_options s2) \<and> isArray h3 (f_options s2) \<and>
      get_prop h3 d ''groupedOptions'' = Inr (f_groupedOptions s2) \<and>
      isArray h3 (f_groupedOptions s2)" by blast
  qed
  have 4: "groupedOptions env s h v = (None, s1, h1) \<and> options env s1 h1 w = (None, s2, h2) \<and>
    toJson env s2 h2 = (Inr d, h3) \<longrightarrow>
      get_prop h3 d ''options'' = Inr (f_options s2) \<and> isArray h3 (f_options s2) \<and>
      get_prop h3 d ''groupedOptions'' = Inr (f_groupedOptions s2) \<and>
      isArray h3 (f_groupedOptions s2)"
  proof
    assume a: "groupedOptions env s h v = (None, s1, h1) \<and>
      options env s1 h1 w = (None, s2, h2) \<and> toJson env s2 h2 = (Inr d, h3)"
    from a groupedOptions_keeps have "isArray h1 (f_groupedOptions s1)" by blast
    with a options_keeps [of env s1 h1 w None s2 h2 "f_groupedOptions s1"]
    have "isArray h2 (f_options s2)" "isArray h2 (f_groupedOptions s2)" by auto
    with a toJson_fields show "get_prop h3 d ''options'' = Inr (f_options s2) \<and> isArray h3 (f_options s2) \<and>
      get_prop h3 d ''groupedOptions'' = Inr (f_groupedOptions s2) \<and>
      isArray h3 (f_groupedOptions s2)" by blast
  qed
  from 1 2 3 4 show ?thesis by simp
qed


theorem both_fields_in_document_witness:
  "get_prop
     [Arr [Str ''a''] [], Obj [(''Colors'', Ref 2)], Arr [Str ''red''] [],
      Obj [(''id'', Str ''a''), (''name'', Str ''a'')], Arr [Ref 3] [],
      Arr [] [], Obj [(''name'', Str ''Colors''), (''options'', Ref 8)],
      Obj [(''id'', Str ''red''), (''name'', Str ''red'')], Arr [Ref 7] [],
      Arr [Ref 6] [],
      Obj [(''id'', Str ''e''), (''type'', Str ''ENUM''), (''groupedOptions'', Ref 9),
           (''options'', Ref 4)]] (Ref 10) ''options'' = Inr (Ref 4) \<and>
   get_prop
     [Arr [Str ''a''] [], Obj [(''Colors'', Ref 2)], Arr [Str ''red''] [],
      Obj [(''id'', Str ''a''), (''name'', Str ''a'')], Arr [Ref 3] [],
      Arr [] [], Obj [(''name'', Str ''Colors''), (''options'', Ref 8)],
      Obj [(''id'', Str ''red''), (''name'', Str ''red'')], Arr [Ref 7] [],
      Arr [Ref 6] [],
      Obj [(''id'', Str ''e''), (''type'', Str ''ENUM''), (''groupedOptions'', Ref 9),
           (''options'', Ref 4)]] (Ref 10) ''groupedOptions'' = Inr (Ref 9)"
proof -
  have o: "options page_plain (EnumSetting ''e'')
     [Arr [Str ''a''] [], Obj [(''Colors'', Ref 2)], Arr [Str ''red''] []] (Ref 0) =
     (None, ((EnumSetting ''e'')\<lparr>f_options := Ref 4\<rparr>),
      [Arr [Str ''a''] [], Obj [(''Colors'', Ref 2)], Arr [Str ''red''] [],
      Obj [(''id'', Str ''a''), (''name'', Str ''a'')], Arr [Ref 3] []])"
    by code_simp
  have g: "groupedOptions page_plain ((EnumSetting ''e'')\<lparr>f_options := Ref 4\<rparr>)
     [Arr [Str ''a''] [], Obj [(''Colors'', Ref 2)], Arr [Str ''red''] [],
      Obj [(''id'', Str ''a''), (''name'', Str ''a'')], Arr [Ref 3] []] (Ref 1) =
     (None, ((EnumSetting ''e'')\<lparr>f_options := Ref 4, f_groupedOptions := Ref 9\<rparr>),
      [Arr [Str ''a''] [], Obj [(''Colors'', Ref 2)], Arr [Str ''red''] [],
      Obj [(''id'', Str ''a''), (''name'', Str ''a'')], Arr [Ref 3] [],
      Arr [] [], Obj [(''name'', Str ''Colors''), (''options'', Ref 8)],
      Obj [(''id'', Str ''red''), (''name'', Str ''red'')], Arr [Ref 7] [],
      Arr [Ref 6] []])"
    by code_simp
  have j: "toJson page_plain ((EnumSetting ''e'')\<lparr>f_options := Ref 4, f_groupedOptions := Ref 9\<rparr>)
     [Arr [Str ''a''] [], Obj [(''Colors'', Ref 2)], Arr [Str ''red''] [],
      Obj [(''id'', Str ''a''), (''name'', Str ''a'')], Arr [Ref 3] [],
      Arr [] [], Obj [(''name'', Str ''Colors''), (''options'', Ref 8)],
      Obj [(''id'', Str ''red''), (''name'', Str ''red'')], Arr [Ref 7] [],
      Arr [Ref 6] []] =
     (Inr (Ref 10),
      [Arr [Str ''a''] [], Obj [(''Colors'', Ref 2)], Arr [Str ''red''] [],
      Obj [(''id'', Str ''a''), (''name'', Str ''a'')], Arr [Ref 3] [],
      Arr [] [], Obj [(''name'', Str ''Colors''), (''options'', Ref 8)],
      Obj [(''id'', Str ''red''), (''name'', Str ''red'')], Arr [Ref 7] [],
      Arr [Ref 6] [],
      Obj [(''id'', Str ''e''), (''type'', Str ''ENUM''), (''groupedOptions'', Ref 9),
           (''options'', Ref 4)]])"
    by code_simp
  from both_fields_in_document [where env = page_plain and s = "EnumSetting ''e''"
      and h = "[Arr [Str ''a''] [], Obj [(''Colors'', Ref 2)], Arr [Str ''red''] []]" and v = "Ref 0" and ?s1.0 = "((EnumSetting ''e'')\<lparr>f_options := Ref 4\<rparr>)" and ?h1.0 = "[Arr [Str ''a''] [], Obj [(''Colors'', Ref 2)], Arr [Str ''red''] [],
      Obj [(''id'', Str ''a''), (''name'', Str ''a'')], Arr [Ref 3] []]" and w = "Ref 1"
      and ?s2.0 = "((EnumSetting ''e'')\<lparr>f_options := Ref 4, f_groupedOptions := Ref 9\<rparr>)" and ?h2.0 = "[Arr [Str ''a''] [], Obj [(''Colors'', Ref 2)], Arr [Str ''red''] [],
      Obj [(''id'', Str ''a''), (''name'', Str ''a'')], Arr [Ref 3] [],
      Arr [] [], Obj [(''name'', Str ''Colors''), (''options'', Ref 8)],
      Obj [(''id'', Str ''red''), (''name'', Str ''red'')], Arr [Ref 7] [],
      Arr [Ref 6] []]" and d = "Ref 10" and ?h3.0 = "[Arr [Str ''a''] [], Obj [(''Colors'', Ref 2)], Arr [Str ''red''] [],
      Obj [(''id'', Str ''a''), (''name'', Str ''a'')], Arr [Ref 3] [],
      Arr [] [], Obj [(''name'', Str ''Colors''), (''options'', Ref 8)],
      Obj [(''id'', Str ''red''), (''name'', Str ''red'')], Arr [Ref 7] [],
      Arr [Ref 6] [],
      Obj [(''id'', Str ''e''), (''type'', Str ''ENUM''), (''groupedOptions'', Ref 9),
           (''options'', Ref 4)]]"] o g j
  show ?thesis by simp
qed

section \<open>The caller's objects\<close>

lemma groups_array_loop_values:
  "groups_array_loop env s gs vals h = (Inr vs, h') \<Longrightarrow> vs = vals @ gs"
proof (induction gs arbitrary: vals h)
  case Nil
  then show ?case by auto
next
  case (Cons g rest)
  from Cons.prems obtain h2 where
    "groups_array_loop env s rest (vals @ [g]) h2 = (Inr vs, h')"
    by (auto split: sum.splits prod.splits if_splits option.splits)
  with Cons.IH show ?case by fastforce
qed

lemma options_array_loop_values:
  "options_array_loop env s es vals h = (Inr vs, h') \<Longrightarrow>
     \<exists>ws. vs = vals @ ws \<and> list_all2 (\<lambda>e w. is_ref e \<longrightarrow> w = e) es ws"
proof (induction es arbitrary: vals h)
  case Nil
  then show ?case by auto
next
  case (Cons it0 rest)
  from Cons.prems obtain it h2 where "is_ref it0 \<longrightarrow> it = it0"
    and "options_array_loop env s rest (vals @ [it]) h2 = (Inr vs, h')"
    by (auto split: sum.splits prod.splits jsval.splits simp: alloc_def)
  with Cons.IH show ?case by fastforce
qed

lemma get_prop_app: "get_prop h v k = Inr (Str x) \<Longrightarrow> get_prop (h @ hs) v k = Inr (Str x)"
  by (auto simp: get_prop_def cell_def nth_append split: jsval.splits if_splits)

lemma key_named_app: "key_named env h e \<Longrightarrow> key_named env (h @ hs) e"
  by (auto simp: key_named_def dest: get_prop_app)

lemma get_prop_set_prop:
  "set_prop h v k x = Inr h' \<Longrightarrow> get_prop h' v k = Inr x"
  by (auto simp: set_prop_def get_prop_def cell_def own_props_with_props prop_get_prop_set
      split: jsval.splits if_splits)

lemma get_prop_set_prop_other:
  "set_prop h v k x = Inr h' \<Longrightarrow> get_prop h e k' = Inr y \<Longrightarrow> e \<noteq> v \<or> k' \<noteq> k \<Longrightarrow>
     get_prop h' e k' = Inr y"
  by (auto simp: set_prop_def get_prop_def cell_def own_props_with_props prop_get_prop_set
      nth_list_update split: jsval.splits if_splits)

lemma key_named_set:
  assumes "headers env" "written env h v x" "set_prop h v ''name'' x = Inr h'"
  shows "key_named env h' v" and "key_named env h e \<Longrightarrow> key_named env h' e"
proof -
  from assms(1,2) obtain p where x: "x = Str (i18nKey env p)" by (auto simp: written_def)
  with get_prop_set_prop [OF assms(3)] show "key_named env h' v"
    by (auto simp: key_named_def)
  then show "key_named env h e \<Longrightarrow> key_named env h' e"
    using get_prop_set_prop_other [OF assms(3), of e "''name''"]
    by (cases "e = v") (auto simp: key_named_def)
qed

lemma key_named_group_options_loop:
  "headers env \<Longrightarrow> group_options_loop env s gn os h = (r, h') \<Longrightarrow> key_named env h e \<Longrightarrow>
     key_named env h' e"
  by (rule group_options_loop_writes
        [where R = "\<lambda>h0 h. key_named env h0 e \<longrightarrow> key_named env h e" and ?h0.0 = h and env = env,
         rule_format])
     (auto intro: key_named_set(2))

lemma key_named_groups_array_loop:
  "headers env \<Longrightarrow> groups_array_loop env s gs vals h = (r, h') \<Longrightarrow> key_named env h e \<Longrightarrow>
     key_named env h' e"
  by (rule groups_array_loop_writes
        [where R = "\<lambda>h0 h. key_named env h0 e \<longrightarrow> key_named env h e" and ?h0.0 = h and env = env,
         rule_format])
     (auto intro: key_named_set(2))

lemma key_named_options_array_loop:
  "headers env \<Longrightarrow> options_array_loop env s es vals h = (r, h') \<Longrightarrow> key_named env h e \<Longrightarrow>
     key_named env h' e"
  by (rule options_array_loop_writes
        [where R = "\<lambda>h0 h. key_named env h0 e \<longrightarrow> key_named env h e" and ?h0.0 = h and env = env,
         rule_format])
     (auto intro: key_named_set(2) key_named_app)

lemma groups_array_loop_key_named:
  assumes hd: "headers env"
  shows "groups_array_loop env s gs vals h = (Inr vs, h') \<Longrightarrow> \<forall>g \<in> set gs. key_named env h' g"
proof (induction gs arbitrary: vals h)
  case Nil
  then show ?case by simp
next
  case (Cons g rest)
  from Cons.prems hd obtain gn n h1 os h2 where
    "i18nOptionGroupKey env s h gn = Inr n"
    "set_prop h g ''name'' n = Inr h1"
    "group_options_loop env s gn os h1 = (None, h2)"
    "groups_array_loop env s rest (vals @ [g]) h2 = (Inr vs, h')"
    by (auto split: sum.splits prod.splits if_splits option.splits)
  note st = this
  have "written env h g n" using hd st(1) i18nOptionGroupKey_form by (auto simp: written_def)
  from key_named_set(1) [OF hd this st(2)] have "key_named env h1 g" .
  then have "key_named env h2 g" using key_named_group_options_loop [OF hd st(3)] by blast
  then have "key_named env h' g" using key_named_groups_array_loop [OF hd st(4)] by blast
  with Cons.IH [OF st(4)] show ?case by simp
qed

lemma options_array_loop_key_named:
  assumes hd: "headers env"
  shows "options_array_loop env s es vals h = (Inr vs, h') \<Longrightarrow>
     \<forall>e \<in> set es. is_ref e \<longrightarrow> key_named env h' e"
proof (induction es arbitrary: vals h)
  case Nil
  then show ?case by simp
next
  case (Cons it0 rest)
  from Cons.prems hd obtain it h1 n n' h2 where
    "is_ref it0 \<longrightarrow> it = it0 \<and> h1 = h"
    "i18nOptionKey env s h1 n = Inr n'"
    "set_prop h1 it ''name'' n' = Inr h2"
    "options_array_loop env s rest (vals @ [it]) h2 = (Inr vs, h')"
    by (auto split: sum.splits prod.splits jsval.splits simp: alloc_def)
  note st = this
  have "written env h1 it n'" using hd st(2) i18nOptionKey_form by (auto simp: written_def)
  from key_named_set(1) [OF hd this st(3)] have "key_named env h2 it" .
  then have "key_named env h' it" using key_named_options_array_loop [OF hd st(4)] by blast
  with Cons.IH [OF st(4)] st(1) show ?case by auto
qed

lemma read_array_fresh: "read_array (h @ [Arr es ps]) (Ref (length h)) = Some es"
  by (simp add: read_array_def cell_def)

text \<open>
  C10. After \<open>groupedOptions\<close> has returned for an array argument, the stored array has the
  elements of the argument: the caller's group objects themselves. After \<open>options\<close> has
  returned for an array argument, the stored array has, at the place of every element that
  is an object, that object itself. In both cases every object that was in the store is
  still there, changed at most in its \<open>name\<close>, and with localization on the name of each of
  these elements is now a key made by \<open>i18nKey\<close>: the call has written to the caller's
  objects.
\<close>

theorem array_elements_stored_and_renamed:
  "(cell h a = Some (Arr es ps) \<and> groupedOptions env s h (Ref a) = (None, s', h') \<longrightarrow>
      read_array h' (f_groupedOptions s') = Some es \<and> names_only h h' \<and>
      (headers env \<longrightarrow> (\<forall>g \<in> set es. key_named env h' g))) \<and>
   (cell h a = Some (Arr es ps) \<and> options env s h (Ref a) = (None, s', h') \<longrightarrow>
      (\<exists>vs. read_array h' (f_options s') = Some vs \<and>
         list_all2 (\<lambda>e v. is_ref e \<longrightarrow> v = e) es vs) \<and> names_only h h' \<and>
      (headers env \<longrightarrow> (\<forall>e \<in> set es. is_ref e \<longrightarrow> key_named env h' e)))"
proof -
  have 1: "cell h a = Some (Arr es ps) \<and> groupedOptions env s h (Ref a) = (None, s', h') \<longrightarrow>
      read_array h' (f_groupedOptions s') = Some es \<and> names_only h h' \<and>
      (headers env \<longrightarrow> (\<forall>g \<in> set es. key_named env h' g))"
  proof
    assume a: "cell h a = Some (Arr es ps) \<and> groupedOptions env s h (Ref a) = (None, s', h')"
    then obtain vs h1 where l: "groups_array_loop env s es [] h = (Inr vs, h1)"
      and h': "h' = h1 @ [Arr vs []]" and s': "f_groupedOptions s' = Ref (length h1)"
      by (auto simp: groupedOptions_def store_groupedOptions_def alloc_def
          split: sum.splits prod.splits)
    from groups_array_loop_values [OF l] have vs: "vs = es" by simp
    have n: "names_only h h'"
      using names_only_groups_array_loop [OF l] names_only_app h' by blast
    have "headers env \<longrightarrow> (\<forall>g \<in> set es. key_named env h' g)"
      using groups_array_loop_key_named [OF _ l] key_named_app h' by blast
    with vs n h' s' show "read_array h' (f_groupedOptions s') = Some es \<and> names_only h h' \<and>
      (headers env \<longrightarrow> (\<forall>g \<in> set es. key_named env h' g))"
      by (simp add: read_array_fresh)
  qed
  have 2: "cell h a = Some (Arr es ps) \<and> options env s h (Ref a) = (None, s', h') \<longrightarrow>
      (\<exists>vs. read_array h' (f_options s') = Some vs \<and>
         list_all2 (\<lambda>e v. is_ref e \<longrightarrow> v = e) es vs) \<and> names_only h h' \<and>
      (headers env \<longrightarrow> (\<forall>e \<in> set es. is_ref e \<longrightarrow> key_named env h' e))"
  proof
    assume a: "cell h a = Some (Arr es ps) \<and> options env s h (Ref a) = (None, s', h')"
    then obtain vs h1 where l: "options_array_loop env s es [] h = (Inr vs, h1)"
      and h': "h' = h1 @ [Arr vs []]" and s': "f_options s' = Ref (length h1)"
      by (auto simp: options_def store_options_def alloc_def
          split: sum.splits prod.splits)
    from options_array_loop_values [OF l]
    have vs: "list_all2 (\<lambda>e v. is_ref e \<longrightarrow> v = e) es vs" by simp
    have n: "names_only h h'"
      using names_only_options_array_loop [OF l] names_only_app h' by blast
    have "headers env \<longrightarrow> (\<forall>e \<in> set es. is_ref e \<longrightarrow> key_named env h' e)"
      using options_array_loop_key_named [OF _ l] key_named_app h' by blast
    with vs n h' s' show "(\<exists>vs. read_array h' (f_options s') = Some vs \<and>
         list_all2 (\<lambda>e v. is_ref e \<longrightarrow> v = e) es vs) \<and> names_only h h' \<and>
      (headers env \<longrightarrow> (\<forall>e \<in> set es. is_ref e \<longrightarrow> key_named env h' e))"
      by (simp add: read_array_fresh)
  qed
  from 1 2 show ?thesis by simp
qed

theorem array_elements_stored_and_renamed_witness:
  "read_array
     [Arr [Ref 1] [],
      Obj [(''name'', Str ''k:settings.e.groups.G.name''), (''options'', Ref 2)],
      Arr [Ref 3] [],
      Obj [(''id'', Str ''a''), (''name'', Str ''k:settings.e.groups.G.options.A.name'')],
      Arr [Ref 1] []] (Ref 4) = Some [Ref 1] \<and>
   names_only
     [Arr [Ref 1] [], Obj [(''name'', Str ''G''), (''options'', Ref 2)], Arr [Ref 3] [],
      Obj [(''id'', Str ''a''), (''name'', Str ''A'')]]
     [Arr [Ref 1] [],
      Obj [(''name'', Str ''k:settings.e.groups.G.name''), (''options'', Ref 2)],
      Arr [Ref 3] [],
      Obj [(''id'', Str ''a''), (''name'', Str ''k:settings.e.groups.G.options.A.name'')],
      Arr [Ref 1] []] \<and>
   key_named page_i18n
     [Arr [Ref 1] [],
      Obj [(''name'', Str ''k:settings.e.groups.G.name''), (''options'', Ref 2)],
      Arr [Ref 3] [],
      Obj [(''id'', Str ''a''), (''name'', Str ''k:settings.e.groups.G.options.A.name'')],
      Arr [Ref 1] []] (Ref 1)"
proof -
  have c: "cell
     [Arr [Ref 1] [], Obj [(''name'', Str ''G''), (''options'', Ref 2)], Arr [Ref 3] [],
      Obj [(''id'', Str ''a''), (''name'', Str ''A'')]] 0 = Some (Arr [Ref 1] [])"
    by code_simp
  have g: "groupedOptions page_i18n (EnumSetting ''e'')
     [Arr [Ref 1] [], Obj [(''name'', Str ''G''), (''options'', Ref 2)], Arr [Ref 3] [],
      Obj [(''id'', Str ''a''), (''name'', Str ''A'')]] (Ref 0) =
     (None, ((EnumSetting ''e'')\<lparr>f_groupedOptions := Ref 4\<rparr>),
      [Arr [Ref 1] [],
      Obj [(''name'', Str ''k:settings.e.groups.G.name''), (''options'', Ref 2)],
      Arr [Ref 3] [],
      Obj [(''id'', Str ''a''), (''name'', Str ''k:settings.e.groups.G.options.A.name'')],
      Arr [Ref 1] []])"
    by code_simp
  have hd: "headers page_i18n" by (simp add: page_i18n_def)
  from array_elements_stored_and_renamed [where env = page_i18n and s = "EnumSetting ''e''"
      and h = "[Arr [Ref 1] [], Obj [(''name'', Str ''G''), (''options'', Ref 2)], Arr [Ref 3] [],
      Obj [(''id'', Str ''a''), (''name'', Str ''A'')]]" and a = 0 and es = "[Ref 1]" and ps = "[]" and s' = "((EnumSetting ''e'')\<lparr>f_groupedOptions := Ref 4\<rparr>)" and h' = "[Arr [Ref 1] [],
      Obj [(''name'', Str ''k:settings.e.groups.G.name''), (''options'', Ref 2)],
      Arr [Ref 3] [],
      Obj [(''id'', Str ''a''), (''name'', Str ''k:settings.e.groups.G.options.A.name'')],
      Arr [Ref 1] []]"]
    c g hd
  show ?thesis by simp
qed

section \<open>\<open>options\<close> on an array, localization off\<close>


lemma same_reads_refl: "same_reads h h"
  by (simp add: same_reads_def)

lemma same_reads_trans: "same_reads h h' \<Longrightarrow> same_reads h' h'' \<Longrightarrow> same_reads h h''"
  by (auto simp: same_reads_def)

lemma same_reads_app: "same_reads h0 h \<Longrightarrow> same_reads h0 (h @ hs)"
  by (auto simp: same_reads_def nth_append)

lemma same_reads_self_write:
  assumes "\<not> headers env" "written env h v x" "set_prop h v ''name'' x = Inr h'"
  shows "same_reads h h'"
proof -
  from assms(3) obtain a where v: "v = Ref a" "a < length h"
    and h': "h' = h[a := with_props (prop_set ''name'' x (own_props (h ! a))) (h ! a)]"
    by (auto simp: set_prop_def cell_def split: jsval.splits if_splits)
  from assms(1,2) v have x: "x = prop_get (own_props (h ! a)) ''name''"
    by (simp add: written_def get_prop_def cell_def)
  show ?thesis
    unfolding same_reads_def h' using v(2)
    by (auto simp: nth_list_update own_props_with_props prop_get_prop_set x)
qed

lemma same_reads_options_array_loop:
  "\<not> headers env \<Longrightarrow> options_array_loop env s es vals h = (r, h') \<Longrightarrow> same_reads h h'"
  by (rule options_array_loop_writes [where R = same_reads and ?h0.0 = h and env = env])
     (auto intro: same_reads_refl same_reads_app same_reads_trans same_reads_self_write)

lemma read_option_same_reads:
  "same_reads h h' \<Longrightarrow> a < length h \<Longrightarrow> read_option h' (Ref a) = Some (as_given h (Ref a))"
  by (auto simp: same_reads_def read_option_def cell_def)

lemma as_given_same_reads:
  "same_reads h h' \<Longrightarrow> string_or_object h e \<Longrightarrow> as_given h' e = as_given h e"
  by (cases e) (auto simp: same_reads_def)

lemma string_or_object_same_reads:
  "same_reads h h' \<Longrightarrow> string_or_object h e \<Longrightarrow> string_or_object h' e"
  by (cases e) (auto simp: same_reads_def)

lemma options_array_loop_plain:
  assumes hd: "\<not> headers env"
  shows "\<forall>e \<in> set es. string_or_object h e \<Longrightarrow>
     \<exists>ws h'. options_array_loop env s es vals h = (Inr (vals @ ws), h') \<and>
       map (read_option h') ws = map (\<lambda>e. Some (as_given h e)) es"
proof (induction es arbitrary: vals h)
  case Nil
  then show ?case by simp
next
  case (Cons it0 rest)
  then have ok: "string_or_object h it0" by simp
  obtain it h1 where a: "(case it0 of Str x \<Rightarrow> alloc h (Obj [(''id'', it0), (''name'', it0)])
           | _ \<Rightarrow> (it0, h)) = (it, h1)" by fastforce
  from a ok obtain b where it: "it = Ref b" "b < length h1" "same_reads h h1"
    and g1: "as_given h1 it = as_given h it0"
    by (cases it0) (auto simp: alloc_def same_reads_def nth_append)
  let ?n = "prop_get (own_props (h1 ! b)) ''name''"
  have gp: "get_prop h1 it ''name'' = Inr ?n" using it by (simp add: get_prop_def cell_def)
  obtain h2 where sp: "set_prop h1 it ''name'' ?n = Inr h2"
    using it by (simp add: set_prop_def cell_def)
  have w: "written env h1 it ?n" using hd gp by (simp add: written_def)
  have s12: "same_reads h1 h2" using same_reads_self_write [OF hd w sp] .
  have s02: "same_reads h h2" using it(3) s12 same_reads_trans by blast
  have "\<forall>e \<in> set rest. string_or_object h2 e"
    using Cons.prems s02 string_or_object_same_reads by auto
  from Cons.IH [OF this, of "vals @ [it]"] obtain ws h' where
    l: "options_array_loop env s rest (vals @ [it]) h2 = (Inr (vals @ [it] @ ws), h')"
    and r: "map (read_option h') ws = map (\<lambda>e. Some (as_given h2 e)) rest"
    by auto
  have s2': "same_reads h2 h'" using same_reads_options_array_loop [OF hd l] .
  have "b < length h2" using it(2) s12 by (auto simp: same_reads_def)
  from read_option_same_reads [OF s2' this]
  have "read_option h' it = Some (as_given h2 it)" using it by simp
  also have "as_given h2 it = as_given h1 it"
    using as_given_same_reads [OF s12, of it] it by simp
  finally have r0: "read_option h' it = Some (as_given h it0)" using g1 by simp
  have "map (\<lambda>e. Some (as_given h2 e)) rest = map (\<lambda>e. Some (as_given h e)) rest"
    using Cons.prems as_given_same_reads [OF s02] by auto
  with r have r': "map (read_option h') ws = map (\<lambda>e. Some (as_given h e)) rest" by simp
  have "options_array_loop env s (it0 # rest) vals h = (Inr (vals @ it # ws), h')"
    using a gp sp l hd by simp
  with r0 r' show ?case by auto
qed

lemma those_map_Some: "those (map (Some \<circ> f) xs) = Some (map f xs)"
  by (induction xs) auto

lemma read_option_app:
  "read_option h v = Some x \<Longrightarrow> read_option (h @ hs) v = Some x"
  by (auto simp: read_option_def cell_def nth_append split: jsval.splits if_splits)

text \<open>
  C4, as stated, fails in its second half. Without localization, \<open>options([{id: 'a'}])\<close>
  stores the caller's object with the name it has, which is \<open>undefined\<close>, not \<open>'a'\<close>.
\<close>

theorem option_without_name_stays_unnamed:
  "options page_plain (EnumSetting ''e'') [Arr [Ref 1] [], Obj [(''id'', Str ''a'')]] (Ref 0) =
     (None, (EnumSetting ''e'')\<lparr>f_options := Ref 2\<rparr>,
      [Arr [Ref 1] [], Obj [(''id'', Str ''a''), (''name'', Undefined)], Arr [Ref 1] []]) \<and>
   read_options
     [Arr [Ref 1] [], Obj [(''id'', Str ''a''), (''name'', Undefined)], Arr [Ref 1] []]
     (Ref 2) = Some [(Str ''a'', Undefined)]"
  by code_simp

text \<open>
  C4, amended. Without localization, \<open>options\<close> returns for every array whose elements are
  strings and objects, and the stored options are, in the order of the array: for a string,
  an option with that string as \<open>id\<close> and as \<open>name\<close>; for an object, that object with the
  \<open>id\<close> and the \<open>name\<close> it had, its name \<open>undefined\<close> when it had none.
\<close>

theorem options_array_as_given:
  assumes "\<not> headers env" "cell h a = Some (Arr es ps)" "\<forall>e \<in> set es. string_or_object h e"
  shows "\<exists>s' h'. options env s h (Ref a) = (None, s', h') \<and>
     read_options h' (f_options s') = Some (map (as_given h) es)"
proof -
  from options_array_loop_plain [OF assms(1,3), of s "[]"] obtain ws h1 where
    l: "options_array_loop env s es [] h = (Inr ws, h1)"
    and r: "map (read_option h1) ws = map (\<lambda>e. Some (as_given h e)) es"
    by auto
  have "map (read_option (h1 @ [Arr ws []])) ws = map Some (map (as_given h) es)"
  proof -
    have "read_option (h1 @ [Arr ws []]) w = read_option h1 w" if "w \<in> set ws" for w
    proof -
      from that r obtain x where "read_option h1 w = Some x"
        by (metis (no_types, lifting) in_set_conv_nth length_map nth_map)
      then show ?thesis using read_option_app by simp
    qed
    then have "map (read_option (h1 @ [Arr ws []])) ws = map (read_option h1) ws" by simp
    with r show ?thesis by simp
  qed
  then have "read_options (h1 @ [Arr ws []]) (Ref (length h1)) = Some (map (as_given h) es)"
    by (simp add: read_options_def read_array_fresh those_map_Some)
  with l assms(2) show ?thesis
    by (simp add: options_def store_options_def alloc_def)
qed

theorem options_array_as_given_witness:
  "\<exists>s' h'. options page_plain (EnumSetting ''e'')
       [Arr [Ref 1, Str ''b''] [], Obj [(''id'', Str ''a'')]] (Ref 0) = (None, s', h') \<and>
     read_options h' (f_options s') = Some [(Str ''a'', Undefined), (Str ''b'', Str ''b'')]"
proof -
  have hd: "\<not> headers page_plain" by (simp add: page_plain_def)
  have c: "cell [Arr [Ref 1, Str ''b''] [], Obj [(''id'', Str ''a'')]] 0 =
      Some (Arr [Ref 1, Str ''b''] [])"
    by (simp add: cell_def)
  have e: "\<forall>e \<in> set [Ref 1, Str ''b''].
      string_or_object [Arr [Ref 1, Str ''b''] [], Obj [(''id'', Str ''a'')]] e"
    by simp
  from options_array_as_given [OF hd c e, of "EnumSetting ''e''"] show ?thesis by simp
qed

section \<open>\<open>groupedOptions\<close> on a mapping\<close>

lemma new_group_exact:
  "new_group env s k h =
     (Inr (Ref (Suc (length h))),
      h @ [Arr [] [], Obj [(''name'', Str (group_text env s k)), (''options'', Ref (length h))]])"
  by (simp add: new_group_def alloc_def get_prop_def set_prop_def cell_def nth_append
      list_update_append i18nOptionGroupKey_def ToString_def group_text_def)

lemma read_option_fresh:
  "read_option (h @ [Obj ps] @ hs) (Ref (length h)) = Some (prop_get ps ''id'', prop_get ps ''name'')"
  by (simp add: read_option_def cell_def nth_append)

lemma map_names_strings:
  assumes g: "get_prop h grp ''name'' = Inr (Str g)"
  shows "\<exists>os hs. map_names env s grp (map Str xs) h = (Inr os, h @ hs) \<and>
     map (read_option (h @ hs)) os = map (\<lambda>x. Some (Str x, Str (option_text env s g x))) xs \<and>
     (\<forall>x \<in> set os. \<exists>b. x = Ref b \<and> length h \<le> b)"
  using g
proof (induction xs arbitrary: h)
  case Nil
  then show ?case by simp
next
  case (Cons x xs)
  let ?ob = "Obj [(''id'', Str x), (''name'', Str (option_text env s g x))]"
  have n: "(if headers env
           then (case get_prop h grp ''name'' of
                   Inl e \<Rightarrow> Inl e
                 | Inr gn \<Rightarrow> i18nOptionGroupOptionKey env s h gn (Str x))
           else Inr (Str x)) = Inr (Str (option_text env s g x))"
    using Cons.prems
    by (simp add: i18nOptionGroupOptionKey_def ToString_def option_text_def)
  have "get_prop (h @ [?ob]) grp ''name'' = Inr (Str g)"
    using Cons.prems by (rule get_prop_app)
  from Cons.IH [OF this] obtain os hs where
    m: "map_names env s grp (map Str xs) (h @ [?ob]) = (Inr os, (h @ [?ob]) @ hs)"
    and r: "map (read_option ((h @ [?ob]) @ hs)) os =
        map (\<lambda>x. Some (Str x, Str (option_text env s g x))) xs"
    and f: "\<forall>x \<in> set os. \<exists>b. x = Ref b \<and> length (h @ [?ob]) \<le> b"
    by blast
  have "map_names env s grp (map Str (x # xs)) h = (Inr (Ref (length h) # os), h @ (?ob # hs))"
    using n m by (simp add: alloc_def)
  moreover have "read_option (h @ (?ob # hs)) (Ref (length h)) =
      Some (Str x, Str (option_text env s g x))"
    using read_option_fresh [of h _ hs] by simp
  moreover have "\<forall>x \<in> set (Ref (length h) # os). \<exists>b. x = Ref b \<and> length h \<le> b"
    using f by auto
  ultimately show ?case using r by (intro exI [of _ "Ref (length h) # os"] exI [of _ "?ob # hs"]) simp
qed


lemma those_map_transfer:
  "those (map f es) = Some xs \<Longrightarrow> (\<forall>e \<in> set es. \<forall>y. f e = Some y \<longrightarrow> g e = Some y) \<Longrightarrow>
     those (map g es) = Some xs"
proof (induction es arbitrary: xs)
  case Nil
  then show ?case by simp
next
  case (Cons e es)
  from Cons.prems(1) obtain y ys where "f e = Some y" "those (map f es) = Some ys" "xs = y # ys"
    by (auto split: option.splits)
  with Cons show ?case by simp
qed

lemma those_Some_map: "those (map (\<lambda>x. Some (f x)) xs) = Some (map f xs)"
  by (induction xs) auto

lemma those_str_of: "those (map str_of es) = Some xs \<Longrightarrow> es = map Str xs"
proof (induction es arbitrary: xs)
  case Nil
  then show ?case by simp
next
  case (Cons e es)
  then show ?case by (cases e) (auto split: option.splits)
qed

lemma read_array_app: "read_array h v = Some es \<Longrightarrow> read_array (h @ hs) v = Some es"
  by (auto simp: read_array_def cell_def nth_append split: jsval.splits if_splits)

lemma read_options_app:
  assumes "read_options h v = Some xs"
  shows "read_options (h @ hs) v = Some xs"
proof -
  from assms obtain es where a: "read_array h v = Some es"
    and t: "those (map (read_option h) es) = Some xs"
    by (auto simp: read_options_def split: option.splits)
  have "those (map (read_option (h @ hs)) es) = Some xs"
    using t by (rule those_map_transfer) (simp add: read_option_app)
  with read_array_app [OF a] show ?thesis by (simp add: read_options_def)
qed

lemma read_group_app:
  assumes "read_group h v = Some x"
  shows "read_group (h @ hs) v = Some x"
proof -
  from assms obtain a where v: "v = Ref a" "a < length h" by
    (auto simp: read_group_def cell_def split: jsval.splits if_splits)
  with assms obtain os where o: "read_options h (prop_get (own_props (h ! a)) ''options'') = Some os"
    and x: "x = (prop_get (own_props (h ! a)) ''name'', os)"
    by (auto simp: read_group_def cell_def split: option.splits)
  from read_options_app [OF o] v x show ?thesis
    by (simp add: read_group_def cell_def nth_append)
qed

lemma entry_strings_app:
  "entry_strings h v = Some xs \<Longrightarrow> entry_strings (h @ hs) v = Some xs"
  by (auto simp: entry_strings_def cell_def nth_append split: jsval.splits if_splits)

lemma index_of_append: "k \<notin> set xs \<Longrightarrow> index_of k (xs @ k # ys) = length xs"
  by (induction xs) auto

lemma prop_get_append: "k \<notin> set (map fst pre) \<Longrightarrow> prop_get (pre @ (k, v) # rest) k = v"
  by (induction pre) auto

lemma group_step:
  assumes e: "entry_strings h0 v = Some xs"
  shows "\<exists>grp h1 hs. new_group env s k h0 = (Inr grp, h1) \<and>
     fill_group env s grp (vals @ [grp]) (length vals) v h1 = (None, h0 @ hs) \<and>
     read_group (h0 @ hs) grp =
       Some (Str (group_text env s k),
             map (\<lambda>x. (Str x, Str (option_text env s (group_text env s k) x))) xs)"
proof -
  let ?n = "length h0"
  let ?gt = "group_text env s k"
  let ?G = "Obj [(''name'', Str ?gt), (''options'', Ref ?n)]"
  let ?h1 = "h0 @ [Arr [] [], ?G]"
  let ?grp = "Ref (Suc ?n)"
  have ng: "new_group env s k h0 = (Inr ?grp, ?h1)" by (rule new_group_exact)
  show ?thesis
  proof (cases "is_ref v")
    case False
    then have "fill_group env s ?grp (vals @ [?grp]) (length vals) v ?h1 = (None, ?h1)"
      by (cases v) (auto simp: fill_group_def isArray_def)
    moreover have "xs = []" using e False by (cases v) (auto simp: entry_strings_def)
    moreover have "read_group ?h1 ?grp = Some (Str ?gt, [])"
      by (simp add: read_group_def read_options_def read_array_def cell_def nth_append)
    ultimately show ?thesis using ng by auto
  next
    case True
    then obtain b es qs where v: "v = Ref b" and b: "b < ?n" "h0 ! b = Arr es qs"
      and t: "those (map str_of es) = Some xs"
      using e by (cases v) (auto simp: entry_strings_def cell_def split: if_splits obj.splits)
    have es: "es = map Str xs" using t by (rule those_str_of)
    have ia: "isArray ?h1 v" "iter_of ?h1 v = Inr es"
      using v b by (auto simp: isArray_def iter_of_def cell_def nth_append)
    have gn: "get_prop ?h1 ?grp ''name'' = Inr (Str ?gt)"
      by (simp add: get_prop_def cell_def nth_append)
    from map_names_strings [OF gn, of env s xs] obtain os hs where
      m: "map_names env s ?grp (map Str xs) ?h1 = (Inr os, ?h1 @ hs)"
      and r: "map (read_option (?h1 @ hs)) os =
          map (\<lambda>x. Some (Str x, Str (option_text env s ?gt x))) xs"
      and f: "\<forall>x \<in> set os. \<exists>b. x = Ref b \<and> length ?h1 \<le> b"
      by blast
    let ?h2 = "?h1 @ hs"
    let ?arr = "Ref (length ?h2)"
    let ?G' = "Obj [(''name'', Str ?gt), (''options'', ?arr)]"
    let ?tl = "[Arr [] [], ?G'] @ hs @ [Arr os []]"
    have sp: "set_prop (?h2 @ [Arr os []]) ?grp ''options'' ?arr = Inr (h0 @ ?tl)"
      by (simp add: set_prop_def cell_def nth_append list_update_append)
    have fg: "fill_group env s ?grp (vals @ [?grp]) (length vals) v ?h1 = (None, h0 @ ?tl)"
      using ia m sp es by (simp add: fill_group_def alloc_def)
    have ro: "read_option (h0 @ ?tl) x = Some y"
      if "x \<in> set os" "read_option ?h2 x = Some y" for x y
    proof -
      from f that(1) obtain c where c: "x = Ref c" "length ?h1 \<le> c" by blast
      with that(2) have "c < length ?h2"
        by (auto simp: read_option_def cell_def split: if_splits)
      with c that(2) show ?thesis
        by (auto simp: read_option_def cell_def nth_append nth_Cons')
    qed
    from r have "those (map (read_option ?h2) os) =
        Some (map (\<lambda>x. (Str x, Str (option_text env s ?gt x))) xs)"
      by (simp add: those_Some_map)
    then have "those (map (read_option (h0 @ ?tl)) os) =
        Some (map (\<lambda>x. (Str x, Str (option_text env s ?gt x))) xs)"
      by (rule those_map_transfer) (use ro in blast)
    moreover have "read_array (h0 @ ?tl) ?arr = Some os"
      by (simp add: read_array_def cell_def nth_append)
    ultimately have "read_options (h0 @ ?tl) ?arr =
        Some (map (\<lambda>x. (Str x, Str (option_text env s ?gt x))) xs)"
      by (simp add: read_options_def)
    then have "read_group (h0 @ ?tl) ?grp =
        Some (Str ?gt, map (\<lambda>x. (Str x, Str (option_text env s ?gt x))) xs)"
      by (simp add: read_group_def cell_def nth_append)
    with ng fg show ?thesis by blast
  qed
qed


lemma entry_list_app:
  "entry_strings h v \<noteq> None \<Longrightarrow> entry_list (h @ hs) v = entry_list h v"
  using entry_strings_app by (fastforce simp: entry_list_def)

lemma groups_object_loop_strings:
  assumes d: "distinct (map fst groups)"
  shows "groups = pre @ rest \<Longrightarrow> length vals = length pre \<Longrightarrow>
     \<forall>kv \<in> set rest. entry_strings h (snd kv) \<noteq> None \<Longrightarrow>
     \<exists>gs hs. groups_object_loop env s groups rest vals h = (Inr (vals @ gs), h @ hs) \<and>
       map (read_group (h @ hs)) gs = map (\<lambda>kv. Some (expected_group env s h kv)) rest"
proof (induction rest arbitrary: pre vals h)
  case Nil
  then show ?case by simp
next
  case (Cons kv rest)
  obtain k v where kv: "kv = (k, v)" by (cases kv)
  from Cons.prems(3) kv obtain xs where xs: "entry_strings h v = Some xs" by auto
  from d Cons.prems(1) kv have nk: "k \<notin> set (map fst pre)" by auto
  have ix: "index_of k (map fst groups) = length vals"
    using Cons.prems(1,2) kv nk index_of_append [of k "map fst pre" "map fst rest"] by simp
  have pg: "prop_get groups k = v"
    using Cons.prems(1) kv nk prop_get_append by simp
  from group_step [OF xs, of env s k vals] obtain grp h1 hs1 where
    ng: "new_group env s k h = (Inr grp, h1)"
    and fg: "fill_group env s grp (vals @ [grp]) (length vals) v h1 = (None, h @ hs1)"
    and rg: "read_group (h @ hs1) grp =
       Some (Str (group_text env s k),
             map (\<lambda>x. (Str x, Str (option_text env s (group_text env s k) x))) xs)"
    by blast
  have ok: "\<forall>kv \<in> set rest. entry_strings (h @ hs1) (snd kv) \<noteq> None"
    using Cons.prems(3) entry_strings_app by fastforce
  from Cons.IH [of "pre @ [kv]" "vals @ [grp]" "h @ hs1"] Cons.prems(1,2) ok
  obtain gs hs2 where
    l: "groups_object_loop env s groups rest (vals @ [grp]) (h @ hs1) =
        (Inr ((vals @ [grp]) @ gs), (h @ hs1) @ hs2)"
    and r: "map (read_group ((h @ hs1) @ hs2)) gs =
        map (\<lambda>kv. Some (expected_group env s (h @ hs1) kv)) rest"
    by auto
  have e: "expected_group env s (h @ hs1) kv' = expected_group env s h kv'"
    if "kv' \<in> set rest" for kv'
    using that Cons.prems(3) entry_list_app by (simp add: expected_group_def)
  have r': "map (read_group (h @ hs1 @ hs2)) gs = map (\<lambda>kv. Some (expected_group env s h kv)) rest"
    using r e by simp
  have r0: "read_group (h @ hs1 @ hs2) grp = Some (expected_group env s h kv)"
    using read_group_app [OF rg, of hs2] xs kv
    by (simp add: expected_group_def entry_list_def)
  have "groups_object_loop env s groups (kv # rest) vals h =
      (Inr (vals @ grp # gs), h @ hs1 @ hs2)"
    using ng fg l ix pg kv by simp
  with r0 r' show ?case
    by (intro exI [of _ "grp # gs"] exI [of _ "hs1 @ hs2"]) simp
qed

lemma groupedOptions_mapping:
  assumes c: "cell h a = Some (Obj ps)" and d: "distinct (map fst ps)"
    and e: "\<forall>kv \<in> set ps. entry_strings h (snd kv) \<noteq> None"
  shows "\<exists>s' h'. groupedOptions env s h (Ref a) = (None, s', h') \<and>
     read_groups h' (f_groupedOptions s') = Some (map (expected_group env s h) ps)"
proof -
  from groups_object_loop_strings [OF d, of "[]" ps "[]" h env s] e obtain gs hs where
    l: "groups_object_loop env s ps ps [] h = (Inr gs, h @ hs)"
    and r: "map (read_group (h @ hs)) gs = map (\<lambda>kv. Some (expected_group env s h kv)) ps"
    by auto
  let ?h' = "(h @ hs) @ [Arr gs []]"
  have "those (map (read_group (h @ hs)) gs) = Some (map (expected_group env s h) ps)"
    using r by (simp add: those_Some_map)
  then have "those (map (read_group ?h') gs) = Some (map (expected_group env s h) ps)"
    by (rule those_map_transfer) (use read_group_app in blast)
  then have "read_groups ?h' (Ref (length (h @ hs))) = Some (map (expected_group env s h) ps)"
    using read_array_fresh [of "h @ hs" gs "[]"] by (simp add: read_groups_def)
  with l c show ?thesis
    by (simp add: groupedOptions_def store_groupedOptions_def alloc_def)
qed

lemma entry_strings_primitive: "\<not> is_ref v \<Longrightarrow> entry_list h v = []"
  by (cases v) (auto simp: entry_list_def entry_strings_def)






text \<open>
  C9. \<open>groupedOptions\<close> returns for every mapping whose keys are distinct and whose values
  are primitives or arrays of strings, and stores one group for each key, in the order of
  the keys; the group of a key whose value is a primitive (a number, a string, a boolean,
  \<open>undefined\<close>, \<open>null\<close>) has the name of the key and no options.
\<close>

theorem primitive_group_value_accepted:
  "cell h a = Some (Obj ps) \<and> distinct (map fst ps) \<and>
   (\<forall>kv \<in> set ps. entry_strings h (snd kv) \<noteq> None) \<longrightarrow>
     (\<exists>s' h'. groupedOptions env s h (Ref a) = (None, s', h') \<and>
        read_groups h' (f_groupedOptions s') = Some (map (expected_group env s h) ps)) \<and>
     (\<forall>kv \<in> set ps. \<not> is_ref (snd kv) \<longrightarrow>
        expected_group env s h kv = (Str (group_text env s (fst kv)), []))"
proof
  assume a: "cell h a = Some (Obj ps) \<and> distinct (map fst ps) \<and>
    (\<forall>kv \<in> set ps. entry_strings h (snd kv) \<noteq> None)"
  have "expected_group env s h kv = (Str (group_text env s (fst kv)), [])"
    if "\<not> is_ref (snd kv)" for kv
    using that by (simp add: expected_group_def entry_strings_primitive)
  with groupedOptions_mapping [of h a ps env s] a
  show "(\<exists>s' h'. groupedOptions env s h (Ref a) = (None, s', h') \<and>
        read_groups h' (f_groupedOptions s') = Some (map (expected_group env s h) ps)) \<and>
     (\<forall>kv \<in> set ps. \<not> is_ref (snd kv) \<longrightarrow>
        expected_group env s h kv = (Str (group_text env s (fst kv)), []))"
    by auto
qed

theorem primitive_group_value_accepted_witness:
  "\<exists>s' h'. groupedOptions page_plain (EnumSetting ''e'')
       [Obj [(''G'', Num 5), (''H'', Str ''x'')]] (Ref 0) = (None, s', h') \<and>
     read_groups h' (f_groupedOptions s') = Some [(Str ''G'', []), (Str ''H'', [])]"
proof -
  have hd: "\<not> headers page_plain" by (simp add: page_plain_def)
  have c: "cell [Obj [(''G'', Num 5), (''H'', Str ''x'')]] 0 =
      Some (Obj [(''G'', Num 5), (''H'', Str ''x'')])"
    by (simp add: cell_def)
  have e: "\<forall>kv \<in> set [(''G'', Num 5), (''H'', Str ''x'')].
      entry_strings [Obj [(''G'', Num 5), (''H'', Str ''x'')]] (snd kv) \<noteq> None"
    by (simp add: entry_strings_def)
  from primitive_group_value_accepted [where env = page_plain
      and h = "[Obj [(''G'', Num 5), (''H'', Str ''x'')]]" and a = 0
      and ps = "[(''G'', Num 5), (''H'', Str ''x'')]" and s = "EnumSetting ''e''"] hd c e
  show ?thesis by (auto simp: group_text_def)
qed

end
